theory Spec2Isabelle
  imports Complex_Main "HOL-Library.Product_Lexorder"
begin

section \<open>Python strings\<close>

text \<open>
  A Python \<^verbatim>\<open>str\<close> is a sequence of Unicode code points; it is modelled as a list of
  natural numbers, one per code point, so that the byte-order mark U+FEFF, the Unicode
  white space of \<^verbatim>\<open>str.split\<close> and the line boundaries of \<^verbatim>\<open>str.splitlines\<close> are all
  single elements, as they are for the program. \<open>u\<close> turns an ASCII literal into such a
  string.
\<close>

type_synonym str = "nat list"

definition u :: "string \<Rightarrow> str" where
  "u s = map of_char s"

text \<open>
  \<^verbatim>\<open>str.isspace\<close> for one code point: the code points for which CPython's
  \<^verbatim>\<open>Py_UNICODE_ISSPACE\<close> holds. \<^verbatim>\<open>str.split()\<close> and \<^verbatim>\<open>str.strip()\<close> use this set.
\<close>

definition isspace :: "nat \<Rightarrow> bool" where
  "isspace c = (c \<in> set [0x09, 0x0A, 0x0B, 0x0C, 0x0D, 0x1C, 0x1D, 0x1E, 0x1F, 0x20, 0x85, 0xA0,
     0x1680, 0x2000, 0x2001, 0x2002, 0x2003, 0x2004, 0x2005, 0x2006, 0x2007, 0x2008, 0x2009,
     0x200A, 0x2028, 0x2029, 0x202F, 0x205F, 0x3000])"

text \<open>\<^verbatim>\<open>s.split()\<close>: the maximal runs of code points that are not white space, in order.\<close>

function split_ws :: "str \<Rightarrow> str list" where
  "split_ws s = (case dropWhile isspace s of
       [] \<Rightarrow> []
     | c # cs \<Rightarrow> takeWhile (\<lambda>x. \<not> isspace x) (c # cs)
                 # split_ws (dropWhile (\<lambda>x. \<not> isspace x) cs))"
  by pat_completeness auto
termination
proof (relation "measure length", goal_cases)
  case 1
  show ?case by simp
next
  case (2 s c cs)
  have "length (dropWhile (\<lambda>x. \<not> isspace x) cs) \<le> length cs"
    by (rule length_dropWhile_le)
  moreover have "length (dropWhile isspace s) \<le> length s"
    by (rule length_dropWhile_le)
  ultimately show ?case using 2 by simp
qed

declare split_ws.simps [simp del]

text \<open>\<^verbatim>\<open>sep.join(xs)\<close>.\<close>

fun join :: "str \<Rightarrow> str list \<Rightarrow> str" where
  "join sep [] = []"
| "join sep [x] = x"
| "join sep (x # y # ys) = x @ sep @ join sep (y # ys)"

text \<open>\<^verbatim>\<open>s.strip()\<close>: white space removed at both ends.\<close>

definition strip :: "str \<Rightarrow> str" where
  "strip s = rev (dropWhile isspace (rev (dropWhile isspace s)))"

text \<open>
  \<^verbatim>\<open>s.lower()\<close> on the ASCII capital letters. Python's \<^verbatim>\<open>str.lower\<close> also maps the cased
  letters outside ASCII; no such mapping yields one of the letters d, e, i, t, w, x or the
  underscore, so the tests \<^verbatim>\<open>"id" in headers\<close>, \<^verbatim>\<open>"tweet_id" in headers\<close>,
  \<^verbatim>\<open>"text" in headers\<close> and \<^verbatim>\<open>"tweet" in headers\<close> of the program are decided by this part
  of the mapping alone. For the labels of the inference service the model is exact on
  ASCII labels.
\<close>

definition lower_cp :: "nat \<Rightarrow> nat" where
  "lower_cp c = (if 65 \<le> c \<and> c \<le> 90 then c + 32 else c)"

definition lower :: "str \<Rightarrow> str" where
  "lower s = map lower_cp s"

text \<open>\<^verbatim>\<open>str(n)\<close> for a non-negative integer: its decimal digits.\<close>

function str_nat :: "nat \<Rightarrow> str" where
  "str_nat n = (if n < 10 then [48 + n] else str_nat (n div 10) @ [48 + n mod 10])"
  by pat_completeness auto
termination
  by (relation "measure id") auto

declare str_nat.simps [simp del]

text \<open>\<^verbatim>\<open>f"{n:04d}"\<close>: the decimal digits, padded with zeros on the left to four places.\<close>

definition fmt_04d :: "nat \<Rightarrow> str" where
  "fmt_04d n = replicate (4 - length (str_nat n)) 48 @ str_nat n"

text \<open>
  \<^verbatim>\<open>text.splitlines(True)[0] if text else ""\<close>: the first line with its line boundary.
  \<^verbatim>\<open>str.splitlines\<close> breaks after LF, VT, FF, CR (CR LF counting as one boundary), FS, GS,
  RS, NEL, LS and PS.
\<close>

definition is_linebreak :: "nat \<Rightarrow> bool" where
  "is_linebreak c = (c \<in> set [0x0A, 0x0B, 0x0C, 0x0D, 0x1C, 0x1D, 0x1E, 0x85, 0x2028, 0x2029])"

fun first_line :: "str \<Rightarrow> str" where
  "first_line [] = []"
| "first_line (c # cs) =
     (if c = 0x0D then (case cs of [] \<Rightarrow> [c] | d # _ \<Rightarrow> if d = 0x0A then [c, d] else [c])
      else if is_linebreak c then [c]
      else c # first_line cs)"

text \<open>\<^verbatim>\<open>input_path_name.split("/")[-1]\<close>: what follows the last slash.\<close>

definition base_name :: "str \<Rightarrow> str" where
  "base_name input_path_name = rev (takeWhile (\<lambda>c. c \<noteq> 47) (rev input_path_name))"

text \<open>
  \<^verbatim>\<open>text.lstrip("U+FEFF")\<close> under the guard \<^verbatim>\<open>text.startswith("U+FEFF")\<close>: every leading
  byte-order mark is removed.
\<close>

definition strip_bom :: "str \<Rightarrow> str" where
  "strip_bom text = (case text of [] \<Rightarrow> text
     | c # _ \<Rightarrow> if c = 0xFEFF then dropWhile (\<lambda>x. x = 0xFEFF) text else text)"

text \<open>
  The lines that iterating \<^verbatim>\<open>io.StringIO(text)\<close> yields: the text cut after every LF
  (no other character ends a line there).
\<close>

fun lines_acc :: "str \<Rightarrow> str \<Rightarrow> str list" where
  "lines_acc cur [] = (if cur = [] then [] else [cur])"
| "lines_acc cur (c # cs) =
     (if c = 0x0A then (cur @ [c]) # lines_acc [] cs else lines_acc (cur @ [c]) cs)"

definition stringio_lines :: "str \<Rightarrow> str list" where
  "stringio_lines text = lines_acc [] text"

section \<open>Exceptions\<close>

text \<open>
  Every exception that the modelled code can raise is a value. An \<open>attempt\<close> is what one
  HTTP exchange of the transport can end in: an error of one of the three classes that
  urllib3's \<^verbatim>\<open>Retry.increment\<close> tells apart (raised while connecting; raised once the
  request is under way; any other), each with its message, or a response with its status
  code, whether it carries a \<^verbatim>\<open>Retry-After\<close> header, its \<^verbatim>\<open>Location\<close> header, and its body
  as a JSON value when the body parses as JSON.

  Of a \<^verbatim>\<open>Location\<close> header the model keeps what decides how requests goes on: \<open>None\<close> when
  the response has no such header or an empty one; otherwise the scheme of the URL that
  the header resolves to against the URL of the request (the header is taken to decode and
  to parse as a URL), which selects the adapter of the session.
\<close>

datatype target = Https | Http | OtherScheme

datatype json =
    JNull
  | JBool bool
  | JInt int
  | JFloat real
  | JStr str
  | JArr "json list"
  | JObj "(str \<times> json) list"

datatype attempt =
    ConnectError str
  | ReadError str
  | OtherError str
  | Response nat bool "target option" "json option"

datatype exn =
    CsvError str
  | AttributeError
  | ValueError
  | TypeError
  | MaxRetryError attempt
  | Reraised attempt
  | TooManyRedirects
  | InvalidSchema
  | HTTPError nat
  | JSONDecodeError

section \<open>Delimiter detection: \<^verbatim>\<open>csv.Sniffer().sniff\<close> on the first line\<close>

text \<open>
  \<^verbatim>\<open>Sniffer.sniff(sample, delimiters)\<close> of the Python standard library first runs
  \<^verbatim>\<open>_guess_quote_and_delimiter\<close>, four regular expressions that each need a quote
  character (\<^verbatim>\<open>"\<close> or \<^verbatim>\<open>'\<close>) in the sample to match at all. What they find in a sample
  that has a quote character is a parameter of the model, \<open>quoted\<close>; on a sample without
  one the stage finds nothing.
\<close>

datatype quote_guess = QuoteDelim nat | QuoteNone | QuoteRaised exn

definition guess_quote_and_delimiter :: "(str \<Rightarrow> quote_guess) \<Rightarrow> str \<Rightarrow> quote_guess" where
  "guess_quote_and_delimiter quoted data =
     (if 34 \<in> set data \<or> 39 \<in> set data then quoted data else QuoteNone)"

text \<open>
  \<^verbatim>\<open>s.split(sep)\<close> for a separator of one character (\<open>cur\<close> is the piece under way), and
  \<^verbatim>\<open>data.split('\n')\<close> with the empty pieces filtered out, as \<^verbatim>\<open>_guess_delimiter\<close> starts.
\<close>

fun split_at :: "nat \<Rightarrow> str \<Rightarrow> str \<Rightarrow> str list" where
  "split_at sep cur [] = [cur]"
| "split_at sep cur (c # cs) =
     (if c = sep then cur # split_at sep [] cs else split_at sep (cur @ [c]) cs)"

definition data_lines :: "str \<Rightarrow> str list" where
  "data_lines data = filter (\<lambda>l. l \<noteq> []) (split_at 0x0A [] data)"

text \<open>
  \<^verbatim>\<open>_guess_delimiter\<close> on the lines of the sample. The program passes the first line of the
  text, so there is at most one line. For one line the frequency table holds, for each
  ASCII character, the single entry (its count in the line, 1); every character that
  occurs has mode (count, 1) and consistency 1/1.0, so \<^verbatim>\<open>delims\<close> is the set of the
  \<^verbatim>\<open>delimiters\<close> that occur in the line, in the order of the ASCII table. One such
  delimiter is returned as it is; of several, the first of the \<^verbatim>\<open>preferred\<close> list that is
  among them; failing that, the greatest by (count, character). With no line, or no
  delimiter in the line, the result is the empty string (here \<open>None\<close>). Only the first
  line of \<open>data\<close> is analysed: the comparison of several lines is not reached by the
  program.
\<close>

definition preferred :: "nat list" where
  "preferred = [44, 9, 59, 32, 58]"

definition ascii :: "nat list" where
  "ascii = [0 ..< 127]"

definition guess_delimiter :: "str \<Rightarrow> nat list \<Rightarrow> nat option" where
  "guess_delimiter data delimiters =
     (case data_lines data of
        [] \<Rightarrow> None
      | line # _ \<Rightarrow>
          (let delims = filter (\<lambda>k. 0 < count_list line k \<and> k \<in> set delimiters) ascii
           in case delims of
                [] \<Rightarrow> None
              | [k] \<Rightarrow> Some k
              | _ \<Rightarrow> (case filter (\<lambda>d. d \<in> set delims) preferred of
                         d # _ \<Rightarrow> Some d
                       | [] \<Rightarrow> Some (snd (last (sort (map (\<lambda>k. (count_list line k, k)) delims)))))))"

text \<open>
  \<^verbatim>\<open>sniff\<close>: the delimiter of the quote stage if it has one, else that of
  \<^verbatim>\<open>_guess_delimiter\<close>, else \<^verbatim>\<open>Error("Could not determine delimiter")\<close>.
\<close>

definition sniff :: "(str \<Rightarrow> quote_guess) \<Rightarrow> str \<Rightarrow> nat list \<Rightarrow> exn + nat" where
  "sniff quoted sample delimiters =
     (case guess_quote_and_delimiter quoted sample of
        QuoteRaised e \<Rightarrow> Inl e
      | QuoteDelim d \<Rightarrow> Inr d
      | QuoteNone \<Rightarrow>
          (case guess_delimiter sample delimiters of
             None \<Rightarrow> Inl (CsvError (u ''Could not determine delimiter''))
           | Some d \<Rightarrow> Inr d))"

text \<open>Lines 36 to 42 of \<^verbatim>\<open>process_blob\<close>: the sniffed delimiter, or the comma on any exception.\<close>

definition detect_delimiter :: "(str \<Rightarrow> quote_guess) \<Rightarrow> str \<Rightarrow> nat" where
  "detect_delimiter quoted text =
     (let first_line = (if text \<noteq> [] then first_line text else [])
      in case sniff quoted first_line [44, 59, 9, 124] of
           Inr delim \<Rightarrow> delim
         | Inl _ \<Rightarrow> 44)"

section \<open>The csv reader\<close>

text \<open>
  \<^verbatim>\<open>csv.DictReader(io.StringIO(text), delimiter=delim)\<close> reads with the \<^verbatim>\<open>excel\<close> dialect:
  quote character \<^verbatim>\<open>"\<close>, doubled quotes, no escape character, no skipping of initial
  spaces, not strict. The reader is CPython's state machine (\<^verbatim>\<open>parse_process_char\<close> of
  \<^verbatim>\<open>Modules/_csv.c\<close>, Python 3.11); the states of the escape character are left out,
  there being none. The end of a line is the character \<open>None\<close>.
\<close>

datatype parser_state =
  START_RECORD | START_FIELD | IN_FIELD | IN_QUOTED_FIELD | QUOTE_IN_QUOTED_FIELD | EAT_CRNL

record reader =
  state :: parser_state
  rfields :: "str list"
  field :: str

definition field_limit :: nat where
  "field_limit = 131072"

definition parse_reset :: reader where
  "parse_reset = \<lparr>state = START_RECORD, rfields = [], field = []\<rparr>"

definition parse_save_field :: "reader \<Rightarrow> reader" where
  "parse_save_field r = r\<lparr>rfields := rfields r @ [field r], field := []\<rparr>"

definition parse_add_char :: "reader \<Rightarrow> nat \<Rightarrow> exn + reader" where
  "parse_add_char r c =
     (if field_limit \<le> length (field r)
      then Inl (CsvError (u ''field larger than field limit (131072)''))
      else Inr (r\<lparr>field := field r @ [c]\<rparr>))"

definition is_eol :: "nat option \<Rightarrow> bool" where
  "is_eol c = (c = Some 0x0A \<or> c = Some 0x0D \<or> c = None)"

definition start_field :: "nat \<Rightarrow> reader \<Rightarrow> nat option \<Rightarrow> exn + reader" where
  "start_field delimiter r c =
     (if is_eol c
      then Inr ((parse_save_field r)\<lparr>state := (if c = None then START_RECORD else EAT_CRNL)\<rparr>)
      else if c = Some 34 then Inr (r\<lparr>state := IN_QUOTED_FIELD\<rparr>)
      else if c = Some delimiter then Inr ((parse_save_field r)\<lparr>state := START_FIELD\<rparr>)
      else (case parse_add_char r (the c) of
              Inl e \<Rightarrow> Inl e
            | Inr r' \<Rightarrow> Inr (r'\<lparr>state := IN_FIELD\<rparr>)))"

definition parse_process_char :: "nat \<Rightarrow> reader \<Rightarrow> nat option \<Rightarrow> exn + reader" where
  "parse_process_char delimiter r c =
     (case state r of
        START_RECORD \<Rightarrow>
          (if c = None then Inr r
           else if c = Some 0x0A \<or> c = Some 0x0D then Inr (r\<lparr>state := EAT_CRNL\<rparr>)
           else start_field delimiter r c)
      | START_FIELD \<Rightarrow> start_field delimiter r c
      | IN_FIELD \<Rightarrow>
          (if is_eol c
           then Inr ((parse_save_field r)\<lparr>state := (if c = None then START_RECORD else EAT_CRNL)\<rparr>)
           else if c = Some delimiter then Inr ((parse_save_field r)\<lparr>state := START_FIELD\<rparr>)
           else parse_add_char r (the c))
      | IN_QUOTED_FIELD \<Rightarrow>
          (if c = None then Inr r
           else if c = Some 34 then Inr (r\<lparr>state := QUOTE_IN_QUOTED_FIELD\<rparr>)
           else parse_add_char r (the c))
      | QUOTE_IN_QUOTED_FIELD \<Rightarrow>
          (if c = Some 34
           then (case parse_add_char r 34 of
                   Inl e \<Rightarrow> Inl e
                 | Inr r' \<Rightarrow> Inr (r'\<lparr>state := IN_QUOTED_FIELD\<rparr>))
           else if c = Some delimiter then Inr ((parse_save_field r)\<lparr>state := START_FIELD\<rparr>)
           else if is_eol c
           then Inr ((parse_save_field r)\<lparr>state := (if c = None then START_RECORD else EAT_CRNL)\<rparr>)
           else (case parse_add_char r (the c) of
                   Inl e \<Rightarrow> Inl e
                 | Inr r' \<Rightarrow> Inr (r'\<lparr>state := IN_FIELD\<rparr>)))
      | EAT_CRNL \<Rightarrow>
          (if c = Some 0x0A \<or> c = Some 0x0D then Inr r
           else if c = None then Inr (r\<lparr>state := START_RECORD\<rparr>)
           else Inl (CsvError (u ''new-line character seen in unquoted field''))))"

text \<open>One line of input: its characters, then the end of the line.\<close>

fun process_line :: "nat \<Rightarrow> reader \<Rightarrow> str \<Rightarrow> exn + reader" where
  "process_line delimiter r [] = parse_process_char delimiter r None"
| "process_line delimiter r (c # cs) =
     (case parse_process_char delimiter r (Some c) of
        Inl e \<Rightarrow> Inl e
      | Inr r' \<Rightarrow> process_line delimiter r' cs)"

text \<open>
  \<^verbatim>\<open>Reader_iternext\<close>, called until the input ends: a record is complete when a line ends in
  state \<^verbatim>\<open>START_RECORD\<close>; otherwise the next line continues it. At the end of the input a
  record under way is returned if its field is not empty or a quoted field is open. The
  result is the records read, in order, and the error that ended the reading, if any: the
  program reads records one at a time, so the records before an error reach it.
\<close>

fun read_records :: "nat \<Rightarrow> reader \<Rightarrow> str list \<Rightarrow> str list list \<times> exn option" where
  "read_records delimiter r [] =
     (if field r \<noteq> [] \<or> state r = IN_QUOTED_FIELD
      then ([rfields (parse_save_field r)], None)
      else ([], None))"
| "read_records delimiter r (line # rest) =
     (case process_line delimiter r line of
        Inl e \<Rightarrow> ([], Some e)
      | Inr r' \<Rightarrow>
          if state r' = START_RECORD
          then (case read_records delimiter parse_reset rest of
                  (recs, e) \<Rightarrow> (rfields r' # recs, e))
          else read_records delimiter r' rest)"

section \<open>\<^verbatim>\<open>csv.DictReader\<close>\<close>

text \<open>
  A row of \<^verbatim>\<open>DictReader\<close> is a \<^verbatim>\<open>dict\<close> from the field names to the values of the record. A
  record shorter than the header gives the missing fields the value \<^verbatim>\<open>None\<close>
  (\<^verbatim>\<open>restval\<close>); a longer one puts the list of the surplus values under the key \<^verbatim>\<open>None\<close>
  (\<^verbatim>\<open>restkey\<close>). \<open>named\<close> holds the entries under string keys (a value \<open>None\<close> is Python's
  \<^verbatim>\<open>None\<close>), \<open>rest\<close> the entry under the key \<^verbatim>\<open>None\<close>. With a field name repeated, the last
  value stays, as in \<^verbatim>\<open>dict(zip(fieldnames, row))\<close>.
\<close>

record rowdict =
  named :: "str \<rightharpoonup> str option"
  rest :: "str list option"

definition row_dict :: "str list \<Rightarrow> str list \<Rightarrow> rowdict" where
  "row_dict fieldnames row =
     (let d = map_of (rev (zip fieldnames (map Some row)));
          lf = length fieldnames;
          lr = length row
      in if lf < lr then \<lparr>named = d, rest = Some (drop lf row)\<rparr>
         else if lr < lf
         then \<lparr>named = (\<lambda>key. if key \<in> set (drop lr fieldnames) then Some None else d key),
               rest = None\<rparr>
         else \<lparr>named = d, rest = None\<rparr>)"

text \<open>\<^verbatim>\<open>r.get(key)\<close> for a string key: the value, or \<^verbatim>\<open>None\<close> when the key is absent.\<close>

definition dict_get :: "rowdict \<Rightarrow> str \<Rightarrow> str option" where
  "dict_get r key = (case named r key of Some v \<Rightarrow> v | None \<Rightarrow> None)"

text \<open>
  The rows that \<^verbatim>\<open>for r in reader\<close> yields from the records after the header: empty records
  are skipped (\<^verbatim>\<open>while row == []\<close>).
\<close>

definition dict_rows :: "str list \<Rightarrow> str list list \<Rightarrow> rowdict list" where
  "dict_rows fieldnames recs = map (row_dict fieldnames) (filter (\<lambda>row. row \<noteq> []) recs)"

section \<open>The row parser of \<^verbatim>\<open>process_blob\<close>\<close>

text \<open>A row of the program: the dictionary \<^verbatim>\<open>{"id": ..., "text": ...}\<close>.\<close>

record row =
  row_id :: str
  row_text :: str

text \<open>
  Lines 51 to 53: the normalized header names and the keys chosen from them. The keys are
  looked up in the rows as they are, while the rows are keyed by the header names as the
  file has them.
\<close>

definition normalize_headers :: "str list \<Rightarrow> str list" where
  "normalize_headers fieldnames = map (\<lambda>h. lower (strip h)) fieldnames"

definition id_key_of :: "str list \<Rightarrow> str option" where
  "id_key_of headers =
     (if u ''id'' \<in> set headers then Some (u ''id'')
      else if u ''tweet_id'' \<in> set headers then Some (u ''tweet_id'')
      else None)"

definition text_key_of :: "str list \<Rightarrow> str option" where
  "text_key_of headers =
     (if u ''text'' \<in> set headers then Some (u ''text'')
      else if u ''tweet'' \<in> set headers then Some (u ''tweet'')
      else None)"

text \<open>\<^verbatim>\<open>a or b\<close> where \<open>a\<close> is a string or \<^verbatim>\<open>None\<close> and \<open>b\<close> a string.\<close>

definition or_str :: "str option \<Rightarrow> str \<Rightarrow> str" where
  "or_str a b = (case a of None \<Rightarrow> b | Some s \<Rightarrow> if s \<noteq> [] then s else b)"

text \<open>
  Line 59 and the \<^verbatim>\<open>(_tx or "")\<close> of line 60: the first of \<^verbatim>\<open>r.get(text_key)\<close>,
  \<^verbatim>\<open>r.get("comment")\<close>, \<^verbatim>\<open>r.get("message")\<close> that is neither \<^verbatim>\<open>None\<close> nor empty, else the
  empty string. With \<^verbatim>\<open>text_key\<close> being \<^verbatim>\<open>None\<close>, \<^verbatim>\<open>r.get(None)\<close> is the list of surplus
  values of a record longer than the header; a list has no \<^verbatim>\<open>split\<close>, and line 60 raises
  \<^verbatim>\<open>AttributeError\<close>.
\<close>

definition text_value :: "str option \<Rightarrow> rowdict \<Rightarrow> exn + str" where
  "text_value text_key r =
     (let fallback = or_str (dict_get r (u ''comment'')) (or_str (dict_get r (u ''message'')) [])
      in case text_key of
           Some key \<Rightarrow> Inr (or_str (dict_get r key) fallback)
         | None \<Rightarrow>
             (case rest r of
                None \<Rightarrow> Inr fallback
              | Some surplus \<Rightarrow> if surplus \<noteq> [] then Inl AttributeError else Inr fallback))"

text \<open>Line 60: \<^verbatim>\<open>" ".join(s.split())\<close>.\<close>

definition collapse :: "str \<Rightarrow> str" where
  "collapse s = join [32] (split_ws s)"

text \<open>The loop of lines 56 to 62 over the rows of the reader; \<open>rows\<close> is the list built so far.\<close>

fun build_rows :: "str option \<Rightarrow> str option \<Rightarrow> rowdict list \<Rightarrow> row list \<Rightarrow> exn + row list" where
  "build_rows id_key text_key [] rows = Inr rows"
| "build_rows id_key text_key (r # rs) rows =
     (let id' = or_str (case id_key of Some key \<Rightarrow> dict_get r key | None \<Rightarrow> None)
                       (str_nat (length rows + 1))
      in case text_value text_key r of
           Inl e \<Rightarrow> Inl e
         | Inr tx0 \<Rightarrow>
             (let tx = collapse tx0
              in build_rows id_key text_key rs
                   (if tx \<noteq> [] then rows @ [\<lparr>row_id = id', row_text = tx\<rparr>] else rows)))"

text \<open>
  Lines 33 to 62. The input is the decoded text (\<^verbatim>\<open>raw.decode("utf-8", errors="replace")\<close>
  never raises, and only the empty byte string decodes to the empty text). \<open>records\<close> is what the csv reader
  yields for the text; its first record is \<^verbatim>\<open>reader.fieldnames\<close>. The result is \<open>NoHeader\<close>
  when \<^verbatim>\<open>not reader.fieldnames\<close>, the rows otherwise, or the exception that leaves
  \<^verbatim>\<open>process_blob\<close>: the one of the first row that raises at line 60 if there is one before
  the reader fails, else the one of the reader.
\<close>

definition records :: "(str \<Rightarrow> quote_guess) \<Rightarrow> str \<Rightarrow> str list list \<times> exn option" where
  "records quoted text0 =
     (let text = strip_bom text0
      in read_records (detect_delimiter quoted text) parse_reset (stringio_lines text))"

datatype parsed = NoHeader | Parsed "row list"

definition parse_rows :: "(str \<Rightarrow> quote_guess) \<Rightarrow> str \<Rightarrow> exn + parsed" where
  "parse_rows quoted text0 =
     (case records quoted text0 of
        ([], Some e) \<Rightarrow> Inl e
      | ([], None) \<Rightarrow> Inr NoHeader
      | (fieldnames # recs, err) \<Rightarrow>
          if fieldnames = [] then Inr NoHeader
          else (let headers = normalize_headers fieldnames;
                    id_key = id_key_of headers;
                    text_key = text_key_of headers
                in case build_rows id_key text_key (dict_rows fieldnames recs) [] of
                     Inl e \<Rightarrow> Inl e
                   | Inr rows \<Rightarrow> (case err of Some e \<Rightarrow> Inl e | None \<Rightarrow> Inr (Parsed rows))))"

section \<open>The dispatcher: \<^verbatim>\<open>session.post\<close> over urllib3's \<^verbatim>\<open>Retry\<close>\<close>

text \<open>
  The session of lines 16 to 18 mounts, for \<^verbatim>\<open>https://\<close> URLs, an adapter whose
  \<^verbatim>\<open>max_retries\<close> is \<^verbatim>\<open>Retry(total=4, backoff_factor=0.7, status_forcelist=(429, 500, 502,
  503, 504))\<close>; \<^verbatim>\<open>API_URL\<close> is taken to be such a URL, as the comment of line 11 has it. For
  \<^verbatim>\<open>http://\<close> URLs the session keeps the adapter that \<^verbatim>\<open>requests.Session()\<close> mounts, whose
  \<^verbatim>\<open>max_retries\<close> is \<^verbatim>\<open>Retry(0, read=False)\<close>. The record holds the fields of urllib3's
  \<^verbatim>\<open>Retry\<close> that decide whether a call is repeated. The counter \<^verbatim>\<open>read\<close> is \<^verbatim>\<open>None\<close> in the
  first adapter and \<^verbatim>\<open>False\<close> in the second; the counters \<^verbatim>\<open>connect\<close>, \<^verbatim>\<open>redirect\<close>, \<^verbatim>\<open>status\<close>
  and \<^verbatim>\<open>other\<close> are \<^verbatim>\<open>None\<close> in both and stay so; \<^verbatim>\<open>backoff_factor\<close> sets the sleep between
  two attempts and nothing else (time is not part of the model). \<^verbatim>\<open>allowed_methods\<close> is not
  given, so it is urllib3's \<^verbatim>\<open>DEFAULT_ALLOWED_METHODS\<close>.
\<close>

datatype counter = CNone | CFalse

record retry =
  total :: int
  read :: counter
  allowed_methods :: "str list"
  status_forcelist :: "nat list"
  raise_on_status :: bool
  respect_retry_after_header :: bool

definition retries :: retry where
  "retries = \<lparr>total = 4,
     read = CNone,
     allowed_methods = [u ''HEAD'', u ''GET'', u ''PUT'', u ''DELETE'', u ''OPTIONS'', u ''TRACE''],
     status_forcelist = [429, 500, 502, 503, 504],
     raise_on_status = True,
     respect_retry_after_header = True\<rparr>"

definition default_retries :: retry where
  "default_retries = \<lparr>total = 0,
     read = CFalse,
     allowed_methods = [u ''HEAD'', u ''GET'', u ''PUT'', u ''DELETE'', u ''OPTIONS'', u ''TRACE''],
     status_forcelist = [],
     raise_on_status = True,
     respect_retry_after_header = True\<rparr>"

definition upper_cp :: "nat \<Rightarrow> nat" where
  "upper_cp c = (if 97 \<le> c \<and> c \<le> 122 then c - 32 else c)"

text \<open>\<^verbatim>\<open>Retry._is_method_retryable\<close>.\<close>

definition is_method_retryable :: "retry \<Rightarrow> str \<Rightarrow> bool" where
  "is_method_retryable r method =
     (\<not> (allowed_methods r \<noteq> [] \<and> map upper_cp method \<notin> set (allowed_methods r)))"

text \<open>\<^verbatim>\<open>Retry.is_retry(method, status_code, has_retry_after)\<close>.\<close>

definition is_retry :: "retry \<Rightarrow> str \<Rightarrow> nat \<Rightarrow> bool \<Rightarrow> bool" where
  "is_retry r method status_code has_retry_after =
     (if \<not> is_method_retryable r method then False
      else if status_forcelist r \<noteq> [] \<and> status_code \<in> set (status_forcelist r) then True
      else (total r \<noteq> 0 \<and> respect_retry_after_header r \<and> has_retry_after
            \<and> status_code \<in> set [413, 429, 503]))"

text \<open>
  \<^verbatim>\<open>Retry.is_exhausted\<close>: the least of the counters that are neither \<^verbatim>\<open>None\<close>, \<^verbatim>\<open>False\<close> nor
  zero is negative; \<^verbatim>\<open>total\<close> is the only counter that is a number.
\<close>

definition is_exhausted :: "retry \<Rightarrow> bool" where
  "is_exhausted r = (total r \<noteq> 0 \<and> total r < 0)"

text \<open>
  \<^verbatim>\<open>Retry.increment\<close> after an attempt that ended in \<open>outcome\<close>: one less in \<^verbatim>\<open>total\<close>; an
  error raised once the request is under way is raised again at once when \<^verbatim>\<open>read\<close> is
  \<^verbatim>\<open>False\<close> or the method may not be retried; \<^verbatim>\<open>MaxRetryError\<close>, with the outcome as its
  reason, when the new counters are exhausted.
\<close>

definition increment :: "retry \<Rightarrow> str \<Rightarrow> attempt \<Rightarrow> exn + retry" where
  "increment r method outcome =
     (let new_retry = r\<lparr>total := total r - 1\<rparr>
      in case outcome of
           ReadError m \<Rightarrow>
             if read r = CFalse \<or> \<not> is_method_retryable r method then Inl (Reraised outcome)
             else if is_exhausted new_retry then Inl (MaxRetryError outcome)
             else Inr new_retry
         | _ \<Rightarrow>
             if is_exhausted new_retry then Inl (MaxRetryError outcome) else Inr new_retry)"

text \<open>
  \<^verbatim>\<open>HTTPConnectionPool.urlopen\<close> as \<^verbatim>\<open>HTTPAdapter.send\<close> calls it (\<^verbatim>\<open>redirect=False\<close>: urllib3
  follows no redirection itself). \<open>srv k\<close> is what the \<open>k\<close>-th HTTP exchange of the run
  ends in; the second component of the result is the number of exchanges made so far. An
  error goes through \<^verbatim>\<open>increment\<close> and, if that returns, the call is made again; a
  response whose status \<^verbatim>\<open>is_retry\<close> accepts likewise; any other response is returned, as
  its status, its \<^verbatim>\<open>Location\<close> and its body.
\<close>

function urlopen ::
  "retry \<Rightarrow> str \<Rightarrow> (nat \<Rightarrow> attempt) \<Rightarrow> nat
     \<Rightarrow> (exn + nat \<times> target option \<times> json option) \<times> nat" where
  "urlopen r method srv n =
     (case srv n of
        Response status has_retry_after location body \<Rightarrow>
          if is_retry r method status has_retry_after
          then (case increment r method (srv n) of
                  Inl e \<Rightarrow> if raise_on_status r then (Inl e, Suc n)
                           else (Inr (status, location, body), Suc n)
                | Inr r' \<Rightarrow> urlopen r' method srv (Suc n))
          else (Inr (status, location, body), Suc n)
      | _ \<Rightarrow>
          (case increment r method (srv n) of
             Inl e \<Rightarrow> (Inl e, Suc n)
           | Inr r' \<Rightarrow> urlopen r' method srv (Suc n)))"
  by pat_completeness auto
termination
  by (relation "measure (\<lambda>(r, method, srv, n). nat (total r))")
     (auto simp: increment_def is_exhausted_def Let_def split: attempt.splits if_splits)

declare urlopen.simps [simp del]

text \<open>
  requests follows redirections (\<^verbatim>\<open>session.post\<close> leaves \<^verbatim>\<open>allow_redirects\<close> at \<^verbatim>\<open>True\<close>).
  \<^verbatim>\<open>get_redirect_target\<close>: the \<^verbatim>\<open>Location\<close> of a response whose status is one of
  \<^verbatim>\<open>REDIRECT_STATI\<close>. \<^verbatim>\<open>rebuild_method\<close>: the method of the next request, \<^verbatim>\<open>GET\<close> after a 303
  or a 302 unless the method was \<^verbatim>\<open>HEAD\<close>, and after a 301 to a \<^verbatim>\<open>POST\<close>. \<^verbatim>\<open>get_adapter\<close>:
  the \<^verbatim>\<open>Retry\<close> of the adapter mounted for the scheme of a URL, none when no adapter is
  mounted for it (\<^verbatim>\<open>InvalidSchema\<close>).
\<close>

definition REDIRECT_STATI :: "nat list" where
  "REDIRECT_STATI = [301, 302, 303, 307, 308]"

definition max_redirects :: nat where
  "max_redirects = 30"

definition get_redirect_target :: "nat \<Rightarrow> target option \<Rightarrow> target option" where
  "get_redirect_target status location =
     (if status \<in> set REDIRECT_STATI then location else None)"

definition rebuild_method :: "str \<Rightarrow> nat \<Rightarrow> str" where
  "rebuild_method method status =
     (let m1 = (if status = 303 \<and> method \<noteq> u ''HEAD'' then u ''GET'' else method);
          m2 = (if status = 302 \<and> m1 \<noteq> u ''HEAD'' then u ''GET'' else m1)
      in if status = 301 \<and> m2 = u ''POST'' then u ''GET'' else m2)"

definition get_adapter :: "target \<Rightarrow> retry option" where
  "get_adapter url =
     (case url of Https \<Rightarrow> Some retries | Http \<Rightarrow> Some default_retries | OtherScheme \<Rightarrow> None)"

text \<open>
  \<^verbatim>\<open>Session.resolve_redirects\<close> for the response \<open>resp\<close> to a request made with \<open>method\<close>,
  \<open>history\<close> being the number of redirections followed before it
  (\<^verbatim>\<open>len(resp.history)\<close>). While the response names a target: \<^verbatim>\<open>TooManyRedirects\<close> once
  \<^verbatim>\<open>max_redirects\<close> have been followed; otherwise the request is sent again to the target,
  with the rebuilt method, through the adapter of the target and so with the whole
  \<^verbatim>\<open>Retry\<close> of that adapter. The result is the last response.
\<close>

function resolve_redirects ::
  "nat \<Rightarrow> str \<Rightarrow> (nat \<Rightarrow> attempt) \<Rightarrow> nat \<times> target option \<times> json option \<Rightarrow> nat
     \<Rightarrow> (exn + nat \<times> target option \<times> json option) \<times> nat" where
  "resolve_redirects history method srv resp n =
     (case get_redirect_target (fst resp) (fst (snd resp)) of
        None \<Rightarrow> (Inr resp, n)
      | Some url \<Rightarrow>
          if max_redirects \<le> history then (Inl TooManyRedirects, n)
          else (case get_adapter url of
                  None \<Rightarrow> (Inl InvalidSchema, n)
                | Some r \<Rightarrow>
                    (case urlopen r (rebuild_method method (fst resp)) srv n of
                       (Inl e, n') \<Rightarrow> (Inl e, n')
                     | (Inr resp', n') \<Rightarrow>
                         resolve_redirects (Suc history) (rebuild_method method (fst resp))
                           srv resp' n')))"
  by pat_completeness auto
termination
  by (relation "measure (\<lambda>(history, method, srv, resp, n). max_redirects - history)") auto

declare resolve_redirects.simps [simp del]

text \<open>
  Lines 75 to 77: \<^verbatim>\<open>session.post\<close>, \<^verbatim>\<open>raise_for_status\<close>, \<^verbatim>\<open>resp.json()\<close>. \<^verbatim>\<open>Session.send\<close>
  sends the request through the adapter of \<^verbatim>\<open>API_URL\<close> and resolves the redirections of
  the response. The exceptions of urllib3 reach the program wrapped in those of requests,
  which are exceptions all the same. \<^verbatim>\<open>raise_for_status\<close> raises for the statuses from 400
  to 599; \<^verbatim>\<open>json()\<close> raises when the body is not JSON.
\<close>

definition call_api :: "(nat \<Rightarrow> attempt) \<Rightarrow> nat \<Rightarrow> (exn + json) \<times> nat" where
  "call_api srv n =
     (case urlopen retries (u ''POST'') srv n of
        (Inl e, n') \<Rightarrow> (Inl e, n')
      | (Inr resp, n') \<Rightarrow>
          (case resolve_redirects 0 (u ''POST'') srv resp n' of
             (Inl e, n'') \<Rightarrow> (Inl e, n'')
           | (Inr (status, location, body), n'') \<Rightarrow>
               if 400 \<le> status \<and> status < 600 then (Inl (HTTPError status), n'')
               else (case body of
                       None \<Rightarrow> (Inl JSONDecodeError, n'')
                     | Some preds \<Rightarrow> (Inr preds, n''))))"

section \<open>\<^verbatim>\<open>process_blob\<close>: chunked dispatch, artifacts and manifest\<close>

text \<open>
  What a run meets outside the program: the configured chunk size, the quote stage of the
  Sniffer, the inference endpoint (\<open>server k items\<close> is what the \<open>k\<close>-th HTTP exchange of
  the run ends in when \<open>items\<close> are posted), the clock (\<open>clock k\<close> is the \<open>k\<close>-th reading of
  \<^verbatim>\<open>_now()\<close> in the run) and the text \<^verbatim>\<open>str(e)\<close> of an exception.
\<close>

record env =
  CHUNK_SIZE :: int
  quoted :: "str \<Rightarrow> quote_guess"
  server :: "nat \<Rightarrow> row list \<Rightarrow> attempt"
  clock :: "nat \<Rightarrow> str"
  str_exn :: "exn \<Rightarrow> str"

text \<open>
  The state of a run: the calls of \<^verbatim>\<open>upload_blob\<close> made so far, in order, each with the
  blob name and the JSON document written (the bytes are \<^verbatim>\<open>json.dumps\<close> of the document
  and a line feed); the numbers of HTTP exchanges and clock readings made; the variables
  \<^verbatim>\<open>chunk_idx\<close> and \<^verbatim>\<open>total_preds\<close>; and the exception that left \<^verbatim>\<open>process_blob\<close>, if one
  did. The output container is taken to accept every upload.
\<close>

record run =
  uploads :: "(str \<times> json) list"
  exchanges :: nat
  readings :: nat
  chunk_idx :: nat
  total_preds :: nat
  raised :: "exn option"

definition upload_json :: "str \<Rightarrow> json \<Rightarrow> run \<Rightarrow> run" where
  "upload_json blob_name obj s = s\<lparr>uploads := uploads s @ [(blob_name, obj)]\<rparr>"

definition chunk_blob_name :: "str \<Rightarrow> nat \<Rightarrow> str" where
  "chunk_blob_name input_path_name idx =
     base_name input_path_name @ u ''.'' @ fmt_04d idx @ u ''.json''"

definition manifest_blob_name :: "str \<Rightarrow> str" where
  "manifest_blob_name input_path_name = base_name input_path_name @ u ''.manifest.json''"

definition write_meta :: "str \<Rightarrow> json \<Rightarrow> run \<Rightarrow> run" where
  "write_meta input_path_name obj s = upload_json (manifest_blob_name input_path_name) obj s"

text \<open>\<^verbatim>\<open>len(preds)\<close> of a decoded JSON value; \<^verbatim>\<open>None\<close>, booleans and numbers have no length.\<close>

fun py_len :: "json \<Rightarrow> nat option" where
  "py_len (JArr xs) = Some (length xs)"
| "py_len (JObj kvs) = Some (length (remdups (map fst kvs)))"
| "py_len (JStr s) = Some (length s)"
| "py_len _ = None"

text \<open>The documents of lines 80 and 87 to 92.\<close>

definition error_doc :: "env \<Rightarrow> exn \<Rightarrow> nat \<Rightarrow> str \<Rightarrow> json" where
  "error_doc env e idx now =
     JObj [(u ''error'', JStr (u ''api_call_failed: '' @ str_exn env e)),
           (u ''chunk_index'', JInt (int idx)),
           (u ''at'', JStr now)]"

definition chunk_doc :: "nat \<Rightarrow> nat \<Rightarrow> json \<Rightarrow> str \<Rightarrow> json" where
  "chunk_doc idx chunk_size preds now =
     JObj [(u ''chunk_index'', JInt (int idx)),
           (u ''chunk_size'', JInt (int chunk_size)),
           (u ''predictions'', preds),
           (u ''processed_at'', JStr now)]"

text \<open>
  The loop of lines 71 to 96, \<^verbatim>\<open>for i in range(0, len(rows), CHUNK_SIZE)\<close> with a positive
  step, from index \<open>i\<close> on. A failed call writes the error document and goes on with the
  next chunk; a successful one writes the chunk document and adds \<^verbatim>\<open>len(preds)\<close>, which
  raises \<^verbatim>\<open>TypeError\<close>, after the upload, when the decoded reply has no length.
\<close>

function chunk_loop :: "env \<Rightarrow> str \<Rightarrow> row list \<Rightarrow> nat \<Rightarrow> nat \<Rightarrow> run \<Rightarrow> run" where
  "chunk_loop env name rows step i s =
     (if 0 < step \<and> i < length rows
      then (let batch = take step (drop i rows);
                now = clock env (readings s)
            in case call_api (\<lambda>k. server env k batch) (exchanges s) of
                 (Inl e, n) \<Rightarrow>
                   chunk_loop env name rows step (i + step)
                     ((upload_json (chunk_blob_name name (chunk_idx s))
                         (error_doc env e (chunk_idx s) now) s)
                      \<lparr>exchanges := n, readings := Suc (readings s),
                       chunk_idx := Suc (chunk_idx s)\<rparr>)
               | (Inr preds, n) \<Rightarrow>
                   (let s' = (upload_json (chunk_blob_name name (chunk_idx s))
                                (chunk_doc (chunk_idx s) (length batch) preds now) s)
                             \<lparr>exchanges := n, readings := Suc (readings s)\<rparr>
                    in case py_len preds of
                         None \<Rightarrow> s'\<lparr>raised := Some TypeError\<rparr>
                       | Some l \<Rightarrow>
                           chunk_loop env name rows step (i + step)
                             (s'\<lparr>total_preds := total_preds s + l,
                                 chunk_idx := Suc (chunk_idx s)\<rparr>)))
      else s)"
  by pat_completeness auto
termination
  by (relation "measure (\<lambda>(env, name, rows, step, i, s). length rows - i)") auto

declare chunk_loop.simps [simp del]

text \<open>The manifest of lines 99 to 105.\<close>

definition manifest_doc :: "str \<Rightarrow> nat \<Rightarrow> nat \<Rightarrow> nat \<Rightarrow> str \<Rightarrow> json" where
  "manifest_doc name total_rows total_chunks total_predictions now =
     JObj [(u ''file'', JStr name),
           (u ''total_rows'', JInt (int total_rows)),
           (u ''total_chunks'', JInt (int total_chunks)),
           (u ''total_predictions'', JInt (int total_predictions)),
           (u ''completed_at'', JStr now)]"

definition init_run :: run where
  "init_run = \<lparr>uploads = [], exchanges = 0, readings = 0, chunk_idx = 0, total_preds = 0,
                raised = None\<rparr>"

text \<open>
  \<^verbatim>\<open>process_blob\<close> for the blob \<open>name\<close> with the decoded content \<open>text0\<close>. \<^verbatim>\<open>range\<close> raises
  \<^verbatim>\<open>ValueError\<close> for the step 0 and is empty for a negative step.
\<close>

definition process_blob :: "env \<Rightarrow> str \<Rightarrow> str \<Rightarrow> run" where
  "process_blob env name text0 =
     (case parse_rows (quoted env) text0 of
        Inl e \<Rightarrow> init_run\<lparr>raised := Some e\<rparr>
      | Inr NoHeader \<Rightarrow> write_meta name (JObj [(u ''error'', JStr (u ''no_header''))]) init_run
      | Inr (Parsed rows) \<Rightarrow>
          if rows = []
          then write_meta name
                 (JObj [(u ''input_rows'', JInt 0), (u ''predictions'', JArr []),
                        (u ''note'', JStr (u ''no_valid_rows''))]) init_run
          else if CHUNK_SIZE env = 0 then init_run\<lparr>raised := Some ValueError\<rparr>
          else (let s = (if 0 < CHUNK_SIZE env
                         then chunk_loop env name rows (nat (CHUNK_SIZE env)) 0 init_run
                         else init_run)
                in if raised s \<noteq> None then s
                   else (upload_json (manifest_blob_name name)
                           (manifest_doc name (length rows) (chunk_idx s) (total_preds s)
                              (clock env (readings s))) s)
                        \<lparr>readings := Suc (readings s)\<rparr>))"



section \<open>The batches of a run\<close>

text \<open>
  The slices \<^verbatim>\<open>rows[i:i+b]\<close> that the loop takes for \<^verbatim>\<open>i = i0, i0+b, ...\<close> below
  \<^verbatim>\<open>len(rows)\<close>, and the results of the calls made for a list of batches one after the
  other, the first exchange being the \<open>n\<close>-th.
\<close>

function slices :: "nat \<Rightarrow> 'a list \<Rightarrow> nat \<Rightarrow> 'a list list" where
  "slices b rows i =
     (if 0 < b \<and> i < length rows then take b (drop i rows) # slices b rows (i + b) else [])"
  by pat_completeness auto
termination
  by (relation "measure (\<lambda>(b, rows, i). length rows - i)") auto

declare slices.simps [simp del]


section \<open>The inference service: \<^verbatim>\<open>predict_texts\<close> and \<^verbatim>\<open>/predict\<close>\<close>

text \<open>
  An output of the model pipeline is a dictionary that may hold a label and a score; the
  pipeline itself is a parameter, \<open>nlp\<close>. \<open>ts\<close> is the reading of the clock at line 22 of
  \<^verbatim>\<open>inference.py\<close>.
\<close>

record model_output =
  label :: "str option"
  score :: "real option"

record prediction =
  p_text :: str
  sentiment_label :: str
  sentiment_score :: real
  processed_at :: str

definition predict_texts :: "(str list \<Rightarrow> model_output list) \<Rightarrow> str \<Rightarrow> str list \<Rightarrow> prediction list" where
  "predict_texts nlp ts texts =
     map (\<lambda>(t, out).
            \<lparr>p_text = t,
             sentiment_label = lower (case label out of Some l \<Rightarrow> l | None \<Rightarrow> u ''NEUTRAL''),
             sentiment_score = (case score out of Some x \<Rightarrow> x | None \<Rightarrow> 0),
             processed_at = ts\<rparr>)
         (zip texts (nlp texts))"

record item =
  item_id :: str
  item_text :: str

record enriched =
  e_id :: str
  e_text :: str
  e_sentiment_label :: str
  e_sentiment_score :: real
  e_processed_at :: str

definition predict :: "(str list \<Rightarrow> model_output list) \<Rightarrow> str \<Rightarrow> item list \<Rightarrow> enriched list" where
  "predict nlp ts items =
     (let texts = map item_text items;
          preds = predict_texts nlp ts texts
      in map (\<lambda>(it, pr).
                \<lparr>e_id = item_id it,
                 e_text = item_text it,
                 e_sentiment_label = sentiment_label pr,
                 e_sentiment_score = sentiment_score pr,
                 e_processed_at = processed_at pr\<rparr>)
             (zip items preds))"

section \<open>Notions of the specification\<close>

text \<open>
  The header names, the rows of the reader and the source value of the text of a row, as
  \<^verbatim>\<open>process_blob\<close> has them for a text.
\<close>

definition fieldnames_of :: "(str \<Rightarrow> quote_guess) \<Rightarrow> str \<Rightarrow> str list" where
  "fieldnames_of q text0 =
     (case fst (records q text0) of [] \<Rightarrow> [] | fieldnames # _ \<Rightarrow> fieldnames)"

definition reader_rows :: "(str \<Rightarrow> quote_guess) \<Rightarrow> str \<Rightarrow> rowdict list" where
  "reader_rows q text0 =
     (case fst (records q text0) of
        [] \<Rightarrow> []
      | fieldnames # recs \<Rightarrow> dict_rows fieldnames recs)"

definition source_text :: "str option \<Rightarrow> rowdict \<Rightarrow> str" where
  "source_text text_key r = (case text_value text_key r of Inr s \<Rightarrow> s | Inl _ \<Rightarrow> [])"

text \<open>
  The normalization of a text in the words of the specification: every maximal run of
  white space becomes one space, then the white space at both ends is removed.
\<close>

function squeeze_runs :: "str \<Rightarrow> str" where
  "squeeze_runs [] = []"
| "squeeze_runs (c # cs) =
     (if isspace c then 32 # squeeze_runs (dropWhile isspace cs) else c # squeeze_runs cs)"
  by pat_completeness auto
termination
  by (relation "measure length") (auto simp: less_Suc_eq_le length_dropWhile_le)

definition normalize_spec :: "str \<Rightarrow> str" where
  "normalize_spec s = strip (squeeze_runs s)"

text \<open>
  The delimiter rule in the words of the specification: the first of the candidates comma,
  semicolon, tab, bar for which splitting the line yields more than one field, else the
  comma.
\<close>

definition first_in_order :: "nat list \<Rightarrow> str \<Rightarrow> nat" where
  "first_in_order candidates line =
     (case filter (\<lambda>c. 1 < length (split_at c [] line)) candidates of
        c # _ \<Rightarrow> c
      | [] \<Rightarrow> 44)"

definition first_candidate :: "str \<Rightarrow> nat" where
  "first_candidate line = first_in_order [44, 59, 9, 124] line"



text \<open>
  A small input for the examples: the header \<^verbatim>\<open>text\<close> and the three data lines \<^verbatim>\<open>a  b\<close>,
  one space, and \<^verbatim>\<open>c\<close>; and a Sniffer quote stage that finds nothing.
\<close>

definition sample_text :: str where
  "sample_text = u ''text'' @ [10] @ u ''a  b'' @ [10, 32, 10] @ u ''c'' @ [10]"

definition sample_rows :: "row list" where
  "sample_rows = [\<lparr>row_id = u ''1'', row_text = u ''a b''\<rparr>, \<lparr>row_id = u ''2'', row_text = u ''c''\<rparr>]"

definition no_quotes :: "str \<Rightarrow> quote_guess" where
  "no_quotes s = QuoteNone"












definition failing_env :: env where
  "failing_env =
     \<lparr>CHUNK_SIZE = 1, quoted = no_quotes,
      server = (\<lambda>k items. if k = 0
                           then Response 500 False None
                                  (Some (JObj [(u ''detail'', JStr (u ''Internal Server Error''))]))
                           else Response 200 False None (Some (JArr [JNull]))),
      clock = (\<lambda>k. u ''T''), str_exn = (\<lambda>e. u ''error'')\<rparr>"


section \<open>The chunker\<close>

lemma concat_slices: "0 < b \<Longrightarrow> concat (slices b rows i) = drop i rows"
proof (induction b rows i rule: slices.induct)
  case (1 b rows i)
  show ?case
  proof (cases "i < length rows")
    case True
    with 1 have "concat (slices b rows (i + b)) = drop (i + b) rows" by simp
    moreover have "take b (drop i rows) @ drop (i + b) rows = drop i rows"
      by (metis add.commute append_take_drop_id drop_drop)
    ultimately show ?thesis using True 1(2) by (subst slices.simps) simp
  next
    case False
    then show ?thesis by (subst slices.simps) simp
  qed
qed

lemma length_slices: "0 < b \<Longrightarrow> length (slices b rows i) = (length rows - i + b - 1) div b"
proof (induction b rows i rule: slices.induct)
  case (1 b rows i)
  show ?case
  proof (cases "i < length rows")
    case True
    with 1 have ih: "length (slices b rows (i + b)) = (length rows - (i + b) + b - 1) div b" by simp
    have "(length rows - i + b - 1) div b = Suc ((length rows - (i + b) + b - 1) div b)"
    proof (cases "length rows - i \<le> b")
      case True
      with \<open>i < length rows\<close> 1(2) have "(length rows - i + b - 1) div b = 1"
        by (intro div_nat_eqI) auto
      moreover from True have "(length rows - (i + b) + b - 1) div b = 0" using 1(2) by simp
      ultimately show ?thesis by simp
    next
      case False
      define m where "m = length rows - i - 1"
      from False have a: "length rows - i + b - 1 = m + b"
        and c: "length rows - (i + b) + b - 1 = m" unfolding m_def by simp_all
      have "(m + b) div b = Suc (m div b)" using 1(2) by simp
      then show ?thesis unfolding a c .
    qed
    with ih True 1(2) show ?thesis by (subst slices.simps) simp
  next
    case False
    then have "length rows - i + b - 1 < b" using 1(2) by simp
    with False show ?thesis by (subst slices.simps) simp
  qed
qed

lemma nth_slices:
  "0 < b \<Longrightarrow> j < length (slices b rows i) \<Longrightarrow>
     slices b rows i ! j = take b (drop (i + j * b) rows) \<and> i + j * b < length rows"
proof (induction b rows i arbitrary: j rule: slices.induct)
  case (1 b rows i)
  from 1(3) have lt: "i < length rows"
    by (subst (asm) slices.simps) (simp split: if_splits)
  then have unf: "slices b rows i = take b (drop i rows) # slices b rows (i + b)"
    using 1(2) by (subst slices.simps) simp
  show ?case
  proof (cases j)
    case 0
    then show ?thesis using unf lt by simp
  next
    case (Suc j')
    with 1(3) unf have "j' < length (slices b rows (i + b))" by simp
    with 1(1)[of j'] 1(2) lt
    have "slices b rows (i + b) ! j' = take b (drop (i + b + j' * b) rows)
            \<and> i + b + j' * b < length rows" by simp
    then show ?thesis using unf Suc by (simp add: add.assoc)
  qed
qed

lemma ceil_div:
  assumes "0 < b"
  shows "int ((n + b - 1) div b) = \<lceil>real n / real b\<rceil>"
proof -
  define q where "q = (n + b - 1) div b"
  have "q * b \<le> n + b - 1" unfolding q_def by simp
  then have B: "q * b < n + b" using assms by simp
  have "n + b - 1 < q * b + b" unfolding q_def using assms
    by (metis div_mult_mod_eq add_less_cancel_left mod_less_divisor)
  then have A: "n \<le> q * b" using assms by simp
  have "real n \<le> real (q * b)" using A by (rule iffD2[OF of_nat_le_iff])
  then have le: "real n / real b \<le> of_int (int q)" using assms by (simp add: pos_divide_le_eq)
  have "real (q * b) < real (n + b)" using B by (rule iffD2[OF of_nat_less_iff])
  then have "(real q - 1) * real b < real n" by (simp add: algebra_simps)
  then have gt: "of_int (int q) - 1 < real n / real b" using assms by (simp add: pos_less_divide_eq)
  from gt le have "\<lceil>real n / real b\<rceil> = int q" by (rule ceiling_unique)
  then show ?thesis unfolding q_def by simp
qed

lemma slices_nonempty: "0 < b \<Longrightarrow> rows \<noteq> [] \<Longrightarrow> slices b rows 0 \<noteq> []"
  by (subst slices.simps) simp

text \<open>
  Claim C2. For every row sequence and every batch size \<open>b > 0\<close>, the slices
  \<^verbatim>\<open>rows[i:i+b]\<close> for \<open>i = 0, b, 2b, ...\<close> are exactly \<open>\<lceil>n/b\<rceil>\<close> batches, every batch but the
  last has exactly \<open>b\<close> rows, the last has between 1 and \<open>b\<close> rows when there is a row, and
  the batches concatenated in order are the row sequence.
\<close>

theorem chunker_correct:
  assumes "0 < b"
  shows "int (length (slices b rows 0)) = \<lceil>real (length rows) / real b\<rceil>
       \<and> (\<forall>j. Suc j < length (slices b rows 0) \<longrightarrow> length (slices b rows 0 ! j) = b)
       \<and> (rows \<noteq> [] \<longrightarrow> 1 \<le> length (last (slices b rows 0))
                          \<and> length (last (slices b rows 0)) \<le> b)
       \<and> concat (slices b rows 0) = rows"
proof (intro conjI allI impI)
  show "int (length (slices b rows 0)) = \<lceil>real (length rows) / real b\<rceil>"
    using length_slices[OF assms, of rows 0] ceil_div[OF assms, of "length rows"] by simp
next
  fix j assume j: "Suc j < length (slices b rows 0)"
  from nth_slices[OF assms j] have "Suc j * b < length rows" by simp
  moreover from j have "j < length (slices b rows 0)" by simp
  from nth_slices[OF assms this] have "slices b rows 0 ! j = take b (drop (j * b) rows)" by simp
  ultimately show "length (slices b rows 0 ! j) = b" by simp
next
  assume ne: "rows \<noteq> []"
  let ?bs = "slices b rows 0"
  from slices_nonempty[OF assms ne] have k: "length ?bs - 1 < length ?bs" by simp
  from nth_slices[OF assms k]
  have eq: "?bs ! (length ?bs - 1) = take b (drop ((length ?bs - 1) * b) rows)"
    and lt: "(length ?bs - 1) * b < length rows" by simp_all
  have "last ?bs = ?bs ! (length ?bs - 1)"
    using slices_nonempty[OF assms ne] by (rule last_conv_nth)
  with eq have l: "length (last ?bs) = min (length rows - (length ?bs - 1) * b) b" by simp
  from l lt assms show "1 \<le> length (last ?bs)" by simp
  from l show "length (last ?bs) \<le> b" by simp
next
  show "concat (slices b rows 0) = rows" using concat_slices[OF assms, of rows 0] by simp
qed

theorem chunker_correct_witness:
  "(0::nat) < 2
   \<and> slices 2 [1, 2, 3, 4, 5 :: nat] 0 = [[1, 2], [3, 4], [5]]
   \<and> int (length (slices 2 [1, 2, 3, 4, 5 :: nat] 0)) = \<lceil>real (length [1, 2, 3, 4, 5 :: nat]) / real (2::nat)\<rceil>
   \<and> concat (slices 2 [1, 2, 3, 4, 5 :: nat] 0) = [1, 2, 3, 4, 5]"
  using chunker_correct[of 2 "[1, 2, 3, 4, 5 :: nat]"] by (simp add: slices.simps)

section \<open>The inference service\<close>

lemma length_predict_texts:
  "length (predict_texts nlp ts texts) = min (length texts) (length (nlp texts))"
  by (simp add: predict_texts_def)

lemma nth_predict_texts:
  assumes "i < length (predict_texts nlp ts texts)"
  shows "predict_texts nlp ts texts ! i =
           \<lparr>p_text = texts ! i,
            sentiment_label = lower (case label (nlp texts ! i) of Some l \<Rightarrow> l | None \<Rightarrow> u ''NEUTRAL''),
            sentiment_score = (case score (nlp texts ! i) of Some x \<Rightarrow> x | None \<Rightarrow> 0),
            processed_at = ts\<rparr>"
  using assms by (simp add: predict_texts_def)

lemma lower_no_capital: "c \<in> set (lower s) \<Longrightarrow> \<not> (65 \<le> c \<and> c \<le> 90)"
  by (auto simp: lower_def lower_cp_def)

lemma lower_idem: "lower (lower s) = lower s"
  by (simp add: lower_def lower_cp_def)

lemma lower_NEUTRAL: "lower (u ''NEUTRAL'') = u ''neutral''"
  by (simp add: lower_def lower_cp_def u_def)

text \<open>
  Claim C9. The response of \<^verbatim>\<open>/predict\<close> zips the request items with the outputs of the
  model, in order: its length is the smaller of the number of items and the number of
  outputs (surplus items are left out, no error is raised), and its \<open>i\<close>-th entry has the
  id and text of the \<open>i\<close>-th item as they are, with the label (lowercased, \<^verbatim>\<open>NEUTRAL\<close> when
  absent) and score (0 when absent) of the \<open>i\<close>-th output.
\<close>

theorem predict_alignment:
  "length (predict nlp ts items) = min (length items) (length (nlp (map item_text items)))
   \<and> (\<forall>i < length (predict nlp ts items).
         e_id (predict nlp ts items ! i) = item_id (items ! i)
       \<and> e_text (predict nlp ts items ! i) = item_text (items ! i)
       \<and> e_sentiment_label (predict nlp ts items ! i)
           = lower (case label (nlp (map item_text items) ! i) of
                      Some l \<Rightarrow> l | None \<Rightarrow> u ''NEUTRAL'')
       \<and> e_sentiment_score (predict nlp ts items ! i)
           = (case score (nlp (map item_text items) ! i) of Some x \<Rightarrow> x | None \<Rightarrow> 0))"
proof (intro conjI allI impI)
  show len: "length (predict nlp ts items)
               = min (length items) (length (nlp (map item_text items)))"
    by (simp add: predict_def Let_def length_predict_texts)
  fix i assume i: "i < length (predict nlp ts items)"
  then have i1: "i < length items"
    and i2: "i < length (predict_texts nlp ts (map item_text items))"
    by (simp_all add: predict_def Let_def)
  have nth: "predict nlp ts items ! i =
      \<lparr>e_id = item_id (items ! i), e_text = item_text (items ! i),
       e_sentiment_label = sentiment_label (predict_texts nlp ts (map item_text items) ! i),
       e_sentiment_score = sentiment_score (predict_texts nlp ts (map item_text items) ! i),
       e_processed_at = processed_at (predict_texts nlp ts (map item_text items) ! i)\<rparr>"
    using i1 i2 by (simp add: predict_def Let_def)
  show "e_id (predict nlp ts items ! i) = item_id (items ! i)" by (simp add: nth)
  show "e_text (predict nlp ts items ! i) = item_text (items ! i)" by (simp add: nth)
  show "e_sentiment_label (predict nlp ts items ! i)
           = lower (case label (nlp (map item_text items) ! i) of
                      Some l \<Rightarrow> l | None \<Rightarrow> u ''NEUTRAL'')"
    by (simp add: nth nth_predict_texts[OF i2])
  show "e_sentiment_score (predict nlp ts items ! i)
           = (case score (nlp (map item_text items) ! i) of Some x \<Rightarrow> x | None \<Rightarrow> 0)"
    by (simp add: nth nth_predict_texts[OF i2])
qed

theorem predict_alignment_witness:
  "predict (\<lambda>texts. [\<lparr>label = Some (u ''POSITIVE''), score = Some 1\<rparr>]) (u ''T'')
     [\<lparr>item_id = u ''7'', item_text = u ''good''\<rparr>, \<lparr>item_id = u ''8'', item_text = u ''bad''\<rparr>]
   = [\<lparr>e_id = u ''7'', e_text = u ''good'', e_sentiment_label = u ''positive'',
       e_sentiment_score = 1, e_processed_at = u ''T''\<rparr>]
   \<and> length (predict (\<lambda>texts. [\<lparr>label = Some (u ''POSITIVE''), score = Some 1\<rparr>]) (u ''T'')
     [\<lparr>item_id = u ''7'', item_text = u ''good''\<rparr>, \<lparr>item_id = u ''8'', item_text = u ''bad''\<rparr>])
     = min 2 1"
  using predict_alignment[of "\<lambda>texts. [\<lparr>label = Some (u ''POSITIVE''), score = Some 1\<rparr>]" "u ''T''"
     "[\<lparr>item_id = u ''7'', item_text = u ''good''\<rparr>, \<lparr>item_id = u ''8'', item_text = u ''bad''\<rparr>]"]
  by (simp add: predict_def predict_texts_def lower_def lower_cp_def u_def)

text \<open>
  Claim C10. Within one call of \<^verbatim>\<open>predict_texts\<close> every prediction carries the same
  \<^verbatim>\<open>processed_at\<close>, the one reading of the clock made before the loop; every
  \<^verbatim>\<open>sentiment_label\<close> is lowercase (lowercasing leaves it as it is, and it holds no ASCII
  capital letter); the label is \<^verbatim>\<open>neutral\<close> when the output of the model has no label and
  the score is 0 when it has no score.
\<close>

theorem predict_texts_timestamp_label:
  "(\<forall>p \<in> set (predict_texts nlp ts texts).
       processed_at p = ts
     \<and> lower (sentiment_label p) = sentiment_label p
     \<and> (\<forall>c \<in> set (sentiment_label p). \<not> (65 \<le> c \<and> c \<le> 90)))
   \<and> (\<forall>i < length (predict_texts nlp ts texts).
         (label (nlp texts ! i) = None
            \<longrightarrow> sentiment_label (predict_texts nlp ts texts ! i) = u ''neutral'')
       \<and> (score (nlp texts ! i) = None
            \<longrightarrow> sentiment_score (predict_texts nlp ts texts ! i) = 0))"
proof (intro conjI ballI allI impI)
  fix p assume "p \<in> set (predict_texts nlp ts texts)"
  then obtain i where i: "i < length (predict_texts nlp ts texts)"
    and p: "p = predict_texts nlp ts texts ! i"
    by (auto simp: in_set_conv_nth)
  note eq = nth_predict_texts[OF i]
  show "processed_at p = ts" by (simp add: p eq)
  show "lower (sentiment_label p) = sentiment_label p" by (simp add: p eq lower_idem)
  fix c assume "c \<in> set (sentiment_label p)"
  then have "c \<in> set (lower (case label (nlp texts ! i) of Some l \<Rightarrow> l | None \<Rightarrow> u ''NEUTRAL''))"
    by (simp add: p eq)
  then show "\<not> (65 \<le> c \<and> c \<le> 90)" by (rule lower_no_capital)
next
  fix i assume i: "i < length (predict_texts nlp ts texts)"
  { assume "label (nlp texts ! i) = None"
    then show "sentiment_label (predict_texts nlp ts texts ! i) = u ''neutral''"
      by (simp add: nth_predict_texts[OF i] lower_NEUTRAL) }
  { assume "score (nlp texts ! i) = None"
    then show "sentiment_score (predict_texts nlp ts texts ! i) = 0"
      by (simp add: nth_predict_texts[OF i]) }
qed

theorem predict_texts_timestamp_label_witness:
  "predict_texts (\<lambda>texts. [\<lparr>label = Some (u ''POSITIVE''), score = Some 1\<rparr>,
                            \<lparr>label = None, score = None\<rparr>]) (u ''T'') [u ''good'', u ''so so'']
   = [\<lparr>p_text = u ''good'', sentiment_label = u ''positive'', sentiment_score = 1,
       processed_at = u ''T''\<rparr>,
      \<lparr>p_text = u ''so so'', sentiment_label = u ''neutral'', sentiment_score = 0,
       processed_at = u ''T''\<rparr>]
   \<and> map processed_at
         (predict_texts (\<lambda>texts. [\<lparr>label = Some (u ''POSITIVE''), score = Some 1\<rparr>,
                            \<lparr>label = None, score = None\<rparr>]) (u ''T'') [u ''good'', u ''so so''])
       = [u ''T'', u ''T'']"
  using predict_texts_timestamp_label[of "\<lambda>texts. [\<lparr>label = Some (u ''POSITIVE''), score = Some 1\<rparr>,
                            \<lparr>label = None, score = None\<rparr>]" "u ''T''" "[u ''good'', u ''so so'']"]
  by (simp add: predict_texts_def lower_def lower_cp_def u_def)

section \<open>Delimiter detection\<close>

lemma split_at_skip:
  "sep \<notin> set l \<Longrightarrow> split_at sep cur (l @ ys) = split_at sep (cur @ l) ys"
  by (induction l arbitrary: cur) auto

lemma length_split_at: "length (split_at sep cur s) = Suc (count_list s sep)"
  by (induction s arbitrary: cur) auto

lemma count_list_pos: "0 < count_list xs x \<longleftrightarrow> x \<in> set xs"
  by (induction xs) auto

lemma more_than_one_field: "Suc 0 < length (split_at c [] line) \<longleftrightarrow> c \<in> set line"
  by (simp add: length_split_at count_list_pos)

lemma first_line_shape:
  "\<exists>l. 10 \<notin> set l \<and> (first_line t = l \<or> first_line t = l @ [10])"
proof (induction t)
  case Nil
  show ?case by (rule exI[of _ "[]"]) simp
next
  case (Cons c cs)
  show ?case
  proof (cases "c = 13")
    case True
    show ?thesis
    proof (cases cs)
      case Nil
      with True show ?thesis by (intro exI[of _ "[13]"]) simp
    next
      case (Cons d ds)
      with True show ?thesis by (intro exI[of _ "[13]"]) simp
    qed
  next
    case nc: False
    show ?thesis
    proof (cases "is_linebreak c")
      case True
      show ?thesis
      proof (cases "c = 10")
        case True
        with nc show ?thesis by (intro exI[of _ "[]"]) (simp add: is_linebreak_def)
      next
        case False
        with nc True show ?thesis by (intro exI[of _ "[c]"]) simp
      qed
    next
      case False
      then have c10: "c \<noteq> 10" by (auto simp: is_linebreak_def)
      from Cons.IH obtain l where l: "10 \<notin> set l"
        and fl: "first_line cs = l \<or> first_line cs = l @ [10]" by blast
      from nc False have eq: "first_line (c # cs) = c # first_line cs" by simp
      show ?thesis
        by (rule exI[of _ "c # l"]) (use l fl c10 eq in auto)
    qed
  qed
qed

lemma data_lines_one:
  assumes "10 \<notin> set l" and "data = l \<or> data = l @ [10]"
  shows "data_lines data = (if l = [] then [] else [l])"
proof -
  have "split_at 10 [] (l @ []) = [l]" and "split_at 10 [] (l @ [10]) = [l, []]"
    by (simp_all add: split_at_skip[OF assms(1)] del: append_Nil2)
  with assms(2) show ?thesis by (auto simp: data_lines_def)
qed

lemma delims_candidates:
  "filter (\<lambda>k. 0 < count_list line k \<and> k \<in> set [44, 59, 9, 124]) ascii
     = filter (\<lambda>k. k \<in> set line) [9, 44, 59, 124]"
proof -
  have a: "ascii = [0..<9] @ 9 # [10..<44] @ 44 # [45..<59] @ 59 # [60..<124] @ 124 # [125..<127]"
    unfolding ascii_def
    by (simp add: upt_rec[of _ "numeral _"] upt_rec[of 0])
  have none: "\<And>a b. (\<forall>k \<in> {a..<b}. k \<notin> set [44, 59, 9, 124::nat]) \<Longrightarrow>
     filter (\<lambda>k. 0 < count_list line k \<and> k \<in> set [44, 59, 9, 124]) [a..<b] = []"
    by (auto simp: filter_empty_conv)
  show ?thesis unfolding a
    by (simp add: none count_list_pos del: upt_Suc)
qed


lemma guess_delimiter_first_line:
  assumes "10 \<notin> set l" and "data = l \<or> data = l @ [10]"
  shows "guess_delimiter data [44, 59, 9, 124]
           = (if 44 \<in> set l then Some 44 else if 9 \<in> set l then Some 9
              else if 59 \<in> set l then Some 59 else if 124 \<in> set l then Some 124
              else None)"
proof (cases "l = []")
  case True
  then show ?thesis by (simp add: guess_delimiter_def data_lines_one[OF assms])
next
  case False
  then have dl: "data_lines data = [l]" by (simp add: data_lines_one[OF assms])
  show ?thesis
    unfolding guess_delimiter_def dl Let_def delims_candidates
    by (cases "44 \<in> set l"; cases "9 \<in> set l"; cases "59 \<in> set l"; cases "124 \<in> set l")
       (simp_all add: preferred_def)
qed

lemma first_in_order_sniffer:
  "first_in_order [44, 9, 59, 124] line
     = (if 44 \<in> set line then 44 else if 9 \<in> set line then 9
        else if 59 \<in> set line then 59 else if 124 \<in> set line then 124 else 44)"
  by (simp add: first_in_order_def more_than_one_field)

lemma detect_delimiter_unquoted:
  assumes "34 \<notin> set (first_line text0)" and "39 \<notin> set (first_line text0)"
  shows "detect_delimiter q text0 = first_in_order [44, 9, 59, 124] (first_line text0)"
proof -
  from first_line_shape[of text0] obtain l where l: "10 \<notin> set l"
    and fl: "first_line text0 = l \<or> first_line text0 = l @ [10]" by blast
  have sample: "(if text0 \<noteq> [] then first_line text0 else []) = first_line text0"
    by (cases text0) simp_all
  have mem: "\<And>k. k \<noteq> 10 \<Longrightarrow> k \<in> set (first_line text0) \<longleftrightarrow> k \<in> set l"
    using fl by auto
  have "sniff q (first_line text0) [44, 59, 9, 124]
          = (case guess_delimiter (first_line text0) [44, 59, 9, 124] of
               None \<Rightarrow> Inl (CsvError (u ''Could not determine delimiter''))
             | Some d \<Rightarrow> Inr d)"
    using assms by (simp add: sniff_def guess_quote_and_delimiter_def)
  then show ?thesis
    unfolding detect_delimiter_def sample Let_def first_in_order_sniffer
    by (simp add: guess_delimiter_first_line[OF l fl] mem)
qed

text \<open>
  Claim C6, as amended. Detection looks at the first line only. When the first line has no
  quote character, the delimiter is the first of comma, tab, semicolon, bar (the order of
  the Sniffer's preferences) for which splitting the line yields more than one field, and
  the comma when there is none; the header \<^verbatim>\<open>a;b;c\<close> gives the semicolon, \<^verbatim>\<open>a,b,c\<close> the
  comma, and a first line with no candidate the comma.
\<close>

theorem delimiter_detection:
  assumes "34 \<notin> set (first_line text0)" and "39 \<notin> set (first_line text0)"
  shows "detect_delimiter q text0 = first_in_order [44, 9, 59, 124] (first_line text0)
       \<and> (\<forall>t. first_line t = first_line text0 \<longrightarrow> detect_delimiter q t = detect_delimiter q text0)
       \<and> detect_delimiter q (u ''a;b;c'') = 59
       \<and> detect_delimiter q (u ''a,b,c'') = 44
       \<and> ((\<forall>c \<in> set [44, 59, 9, 124]. c \<notin> set (first_line text0))
            \<longrightarrow> detect_delimiter q text0 = 44)"
proof (intro conjI allI impI)
  show "detect_delimiter q text0 = first_in_order [44, 9, 59, 124] (first_line text0)"
    using assms by (rule detect_delimiter_unquoted)
next
  fix t assume "first_line t = first_line text0"
  moreover have "\<And>x. (if x \<noteq> [] then first_line x else []) = first_line x"
    by (case_tac x) simp_all
  ultimately show "detect_delimiter q t = detect_delimiter q text0"
    by (simp add: detect_delimiter_def)
next
  have fl: "first_line (u ''a;b;c'') = u ''a;b;c''" by (simp add: u_def is_linebreak_def)
  have nq1: "34 \<notin> set (first_line (u ''a;b;c''))" and nq2: "39 \<notin> set (first_line (u ''a;b;c''))"
    unfolding fl by (simp_all add: u_def)
  show "detect_delimiter q (u ''a;b;c'') = 59"
    unfolding detect_delimiter_unquoted[OF nq1 nq2] fl first_in_order_sniffer by (simp add: u_def)
next
  have fl: "first_line (u ''a,b,c'') = u ''a,b,c''" by (simp add: u_def is_linebreak_def)
  have nq1: "34 \<notin> set (first_line (u ''a,b,c''))" and nq2: "39 \<notin> set (first_line (u ''a,b,c''))"
    unfolding fl by (simp_all add: u_def)
  show "detect_delimiter q (u ''a,b,c'') = 44"
    unfolding detect_delimiter_unquoted[OF nq1 nq2] fl first_in_order_sniffer by (simp add: u_def)
next
  assume "\<forall>c \<in> set [44, 59, 9, 124]. c \<notin> set (first_line text0)"
  then show "detect_delimiter q text0 = 44"
    by (simp add: detect_delimiter_unquoted[OF assms] first_in_order_sniffer)
qed

theorem delimiter_detection_witness:
  "34 \<notin> set (first_line (u ''a|b'' @ [9] @ u ''c'' @ [10] @ u ''1,2,3''))
   \<and> 39 \<notin> set (first_line (u ''a|b'' @ [9] @ u ''c'' @ [10] @ u ''1,2,3''))
   \<and> detect_delimiter no_quotes (u ''a|b'' @ [9] @ u ''c'' @ [10] @ u ''1,2,3'') = 9"
proof -
  have fl: "first_line (u ''a|b'' @ [9] @ u ''c'' @ [10] @ u ''1,2,3'') = u ''a|b'' @ [9] @ u ''c'' @ [10]"
    by (simp add: u_def is_linebreak_def)
  have h1: "34 \<notin> set (first_line (u ''a|b'' @ [9] @ u ''c'' @ [10] @ u ''1,2,3''))"
    and h2: "39 \<notin> set (first_line (u ''a|b'' @ [9] @ u ''c'' @ [10] @ u ''1,2,3''))"
    unfolding fl by (simp_all add: u_def)
  from delimiter_detection[OF h1 h2, of no_quotes]
  have "detect_delimiter no_quotes (u ''a|b'' @ [9] @ u ''c'' @ [10] @ u ''1,2,3'')
          = first_in_order [44, 9, 59, 124] (first_line (u ''a|b'' @ [9] @ u ''c'' @ [10] @ u ''1,2,3''))"
    by (rule conjunct1)
  also have "\<dots> = 9" unfolding fl by (simp add: first_in_order_sniffer u_def)
  finally show ?thesis using h1 h2 by simp
qed

text \<open>
  Claim C6 as the specification words it, with the candidates in the order comma,
  semicolon, tab, bar, fails on the header \<^verbatim>\<open>a;b<TAB>c\<close>: the program reads with the tab.
\<close>

theorem delimiter_first_candidate_counterexample:
  "detect_delimiter no_quotes (u ''a;b'' @ [9] @ u ''c'') = 9
   \<and> first_candidate (first_line (u ''a;b'' @ [9] @ u ''c'')) = 59
   \<and> detect_delimiter no_quotes (u ''a;b'' @ [9] @ u ''c'')
       \<noteq> first_candidate (first_line (u ''a;b'' @ [9] @ u ''c''))"
proof -
  have "detect_delimiter no_quotes (u ''a;b'' @ [9] @ u ''c'') = 9
   \<and> first_candidate (first_line (u ''a;b'' @ [9] @ u ''c'')) = 59"
  proof
  have fl: "first_line (u ''a;b'' @ [9] @ u ''c'') = u ''a;b'' @ [9] @ u ''c''"
    by (simp add: u_def is_linebreak_def)
  have nq1: "34 \<notin> set (first_line (u ''a;b'' @ [9] @ u ''c''))"
    and nq2: "39 \<notin> set (first_line (u ''a;b'' @ [9] @ u ''c''))"
    unfolding fl by (simp_all add: u_def)
  show "detect_delimiter no_quotes (u ''a;b'' @ [9] @ u ''c'') = 9"
    unfolding detect_delimiter_unquoted[OF nq1 nq2] fl first_in_order_sniffer by (simp add: u_def)
  show "first_candidate (first_line (u ''a;b'' @ [9] @ u ''c'')) = 59"
    unfolding fl by (simp add: first_candidate_def first_in_order_def more_than_one_field u_def)
  qed
  then show ?thesis by simp
qed

section \<open>The row parser\<close>

lemma isspace_32: "isspace 32"
  by (simp add: isspace_def)

lemma squeeze_append_word:
  "\<forall>c \<in> set w. \<not> isspace c \<Longrightarrow> squeeze_runs (w @ r) = w @ squeeze_runs r"
  by (induction w) simp_all

lemma squeeze_eq_Nil: "squeeze_runs s = [] \<longleftrightarrow> s = []"
  by (cases s) simp_all

lemma dropWhile_squeeze_start:
  "t = [] \<or> \<not> isspace (hd t) \<Longrightarrow> dropWhile isspace (squeeze_runs t) = squeeze_runs t"
  by (cases t) auto

lemma squeeze_all_space:
  assumes "\<forall>x \<in> set r. isspace x"
  shows "\<forall>x \<in> set (squeeze_runs r). isspace x"
proof (cases r)
  case Nil
  then show ?thesis by simp
next
  case (Cons d ds)
  with assms have d: "isspace d" and dw: "dropWhile isspace ds = []" by simp_all
  show ?thesis unfolding Cons by (simp add: d dw isspace_32)
qed

lemma dropWhile_start: "dropWhile P s = [] \<or> \<not> P (hd (dropWhile P s))"
  by (metis hd_dropWhile)

lemma dropWhile_squeeze:
  "dropWhile isspace (squeeze_runs s) = squeeze_runs (dropWhile isspace s)"
proof (cases s)
  case Nil
  then show ?thesis by simp
next
  case (Cons c cs)
  show ?thesis
  proof (cases "isspace c")
    case True
    have "dropWhile isspace (squeeze_runs (dropWhile isspace cs)) = squeeze_runs (dropWhile isspace cs)"
      by (rule dropWhile_squeeze_start) (rule dropWhile_start)
    with True Cons show ?thesis by (simp add: isspace_32)
  next
    case False
    with Cons show ?thesis by simp
  qed
qed

lemma rstrip_keep:
  assumes "\<exists>c \<in> set y. \<not> isspace c"
  shows "rev (dropWhile isspace (rev (p @ y))) = p @ rev (dropWhile isspace (rev y))"
proof -
  from assms obtain c where "c \<in> set (rev y)" "\<not> isspace c" by auto
  then have "dropWhile isspace (rev y @ rev p) = dropWhile isspace (rev y) @ rev p"
    by (rule dropWhile_append1)
  then show ?thesis by simp
qed

lemma rstrip_drop:
  assumes "\<forall>c \<in> set y. isspace c"
  shows "rev (dropWhile isspace (rev (p @ y))) = rev (dropWhile isspace (rev p))"
proof -
  from assms have "\<And>c. c \<in> set (rev y) \<Longrightarrow> isspace c" by simp
  then have "dropWhile isspace (rev y @ rev p) = dropWhile isspace (rev p)"
    by (rule dropWhile_append2)
  then show ?thesis by simp
qed

lemma rstrip_word:
  assumes "w \<noteq> []" "\<forall>c \<in> set w. \<not> isspace c"
  shows "rev (dropWhile isspace (rev w)) = w"
proof -
  from assms have "rev w \<noteq> []" and "\<not> isspace (hd (rev w))"
    by (simp_all add: hd_rev)
  then have "dropWhile isspace (rev w) = rev w" by (cases "rev w") simp_all
  then show ?thesis by simp
qed

lemma split_ws_Nil: "dropWhile isspace s = [] \<Longrightarrow> split_ws s = []"
  by (subst split_ws.simps) (simp only: list.case)

lemma split_ws_Cons:
  "dropWhile isspace s = c # cs \<Longrightarrow>
     split_ws s = (c # takeWhile (\<lambda>x. \<not> isspace x) cs) # split_ws (dropWhile (\<lambda>x. \<not> isspace x) cs)
     \<and> \<not> isspace c"
proof -
  assume a: "dropWhile isspace s = c # cs"
  then have "\<not> isspace c" by (metis hd_dropWhile list.sel(1) list.distinct(1))
  moreover have "split_ws s = takeWhile (\<lambda>x. \<not> isspace x) (c # cs)
                              # split_ws (dropWhile (\<lambda>x. \<not> isspace x) cs)"
    by (subst split_ws.simps) (simp only: a list.case)
  ultimately show ?thesis by simp
qed

lemma collapse_refines: "collapse s = normalize_spec s"
  unfolding collapse_def normalize_spec_def
proof (induction s rule: split_ws.induct)
  case (1 s)
  let ?ns = "\<lambda>x. \<not> isspace x"
  have strip_eq: "strip (squeeze_runs s)
      = rev (dropWhile isspace (rev (squeeze_runs (dropWhile isspace s))))"
    by (simp add: strip_def dropWhile_squeeze)
  show ?case
  proof (cases "dropWhile isspace s")
    case Nil
    show ?thesis unfolding strip_eq split_ws_Nil[OF Nil] Nil by simp
  next
    case (Cons c cs)
    define w where "w = c # takeWhile ?ns cs"
    define r where "r = dropWhile ?ns cs"
    define r2 where "r2 = dropWhile isspace r"
    from split_ws_Cons[OF Cons] have sw: "split_ws s = w # split_ws r" and nc: "\<not> isspace c"
      by (simp_all add: w_def r_def)
    have wns: "\<forall>x \<in> set w. \<not> isspace x" using nc
      by (auto simp: w_def dest: set_takeWhileD)
    have wne: "w \<noteq> []" by (simp add: w_def)
    have t: "dropWhile isspace s = w @ r" by (simp add: Cons w_def r_def)
    have sq: "squeeze_runs (dropWhile isspace s) = w @ squeeze_runs r"
      unfolding t using wns by (rule squeeze_append_word)
    have ih: "join [32] (split_ws r) = strip (squeeze_runs r)"
      using 1[OF Cons] by (simp add: r_def)
    have strip_r: "strip (squeeze_runs r) = rev (dropWhile isspace (rev (squeeze_runs r2)))"
      by (simp add: strip_def dropWhile_squeeze r2_def)
    show ?thesis
    proof (cases "r2 = []")
      case True
      then have "split_ws r = []" by (simp add: r2_def split_ws_Nil)
      moreover
      have "\<forall>x \<in> set (squeeze_runs r). isspace x"
        using True by (intro squeeze_all_space) (simp add: r2_def)
      then have "rev (dropWhile isspace (rev (w @ squeeze_runs r)))
                   = rev (dropWhile isspace (rev w))"
        by (rule rstrip_drop)
      then have "rev (dropWhile isspace (rev (w @ squeeze_runs r))) = w"
        by (simp only: rstrip_word[OF wne wns])
      ultimately show ?thesis unfolding strip_eq sq sw by (simp only: join.simps)
    next
      case False
      then obtain d ds where r2: "r2 = d # ds" by (cases r2) auto
      then have nd: "\<not> isspace d" unfolding r2_def
        by (metis hd_dropWhile list.sel(1) list.distinct(1))
      from split_ws_Cons[of r d ds] r2 obtain w2 ws where sr: "split_ws r = w2 # ws"
        by (auto simp: r2_def)
      have rne: "r \<noteq> []" using False by (auto simp: r2_def)
      then obtain e es where r: "r = e # es" by (cases r) auto
      have "r = [] \<or> \<not> ?ns (hd r)" unfolding r_def by (rule dropWhile_start)
      with r have se: "isspace e" by simp
      then have r2': "r2 = dropWhile isspace es" by (simp add: r2_def r)
      have sqr: "squeeze_runs r = 32 # squeeze_runs r2" using se by (simp add: r r2')
      have has: "\<exists>x \<in> set (squeeze_runs r2). \<not> isspace x" using nd by (auto simp: r2)
      have "strip (squeeze_runs s) = rev (dropWhile isspace (rev (w @ 32 # squeeze_runs r2)))"
        by (simp only: strip_eq sq sqr)
      also have "\<dots> = (w @ [32]) @ rev (dropWhile isspace (rev (squeeze_runs r2)))"
        using rstrip_keep[OF has, of "w @ [32]"] by simp
      also have "\<dots> = w @ 32 # strip (squeeze_runs r)"
        by (simp add: strip_r)
      finally have "strip (squeeze_runs s) = w @ 32 # strip (squeeze_runs r)" .
      moreover have "join [32] (split_ws s) = w @ 32 # join [32] (split_ws r)"
        by (simp add: sw sr)
      ultimately show ?thesis by (simp add: ih)
    qed
  qed
qed

lemma build_rows_text:
  "build_rows id_key text_key rs rows0 = Inr rows \<Longrightarrow>
     map row_text rows
       = map row_text rows0
         @ filter (\<lambda>t. t \<noteq> []) (map (\<lambda>r. collapse (source_text text_key r)) rs)"
proof (induction rs arbitrary: rows0)
  case Nil
  then show ?case by simp
next
  case (Cons r rs)
  from Cons.prems obtain tx0 where tv: "text_value text_key r = Inr tx0"
    by (cases "text_value text_key r") (simp_all add: Let_def)
  then have st: "source_text text_key r = tx0" by (simp add: source_text_def)
  show ?case
  proof (cases "collapse tx0 = []")
    case True
    with Cons.prems tv have "build_rows id_key text_key rs rows0 = Inr rows"
      by (simp add: Let_def)
    from Cons.IH[OF this] show ?thesis using True st by simp
  next
    case False
    with Cons.prems tv obtain i where
      "build_rows id_key text_key rs (rows0 @ [\<lparr>row_id = i, row_text = collapse tx0\<rparr>]) = Inr rows"
      by (simp add: Let_def)
    from Cons.IH[OF this] show ?thesis using False st by simp
  qed
qed

lemma build_rows_ids:
  "build_rows None text_key rs rows0 = Inr rows \<Longrightarrow>
     length rows0 \<le> length rows
     \<and> map row_id rows
         = map row_id rows0 @ map (\<lambda>k. str_nat (k + 1)) [length rows0 ..< length rows]"
proof (induction rs arbitrary: rows0)
  case Nil
  then show ?case by simp
next
  case (Cons r rs)
  from Cons.prems obtain tx0 where tv: "text_value text_key r = Inr tx0"
    by (cases "text_value text_key r") (simp_all add: Let_def)
  show ?case
  proof (cases "collapse tx0 = []")
    case True
    with Cons.prems tv have "build_rows None text_key rs rows0 = Inr rows"
      by (simp add: Let_def)
    from Cons.IH[OF this] show ?thesis .
  next
    case False
    let ?new = "\<lparr>row_id = str_nat (length rows0 + 1), row_text = collapse tx0\<rparr>"
    from False Cons.prems tv
    have "build_rows None text_key rs (rows0 @ [?new]) = Inr rows"
      by (simp add: Let_def or_str_def)
    from Cons.IH[OF this]
    have le: "Suc (length rows0) \<le> length rows"
      and ids: "map row_id rows = map row_id (rows0 @ [?new])
                  @ map (\<lambda>k. str_nat (k + 1)) [Suc (length rows0) ..< length rows]"
      by simp_all
    from le have "[length rows0 ..< length rows] = length rows0 # [Suc (length rows0) ..< length rows]"
      by (simp add: upt_conv_Cons)
    with ids le show ?thesis by simp
  qed
qed

lemma parse_rows_Parsed:
  assumes "parse_rows q text0 = Inr (Parsed rows)"
  shows "build_rows (id_key_of (normalize_headers (fieldnames_of q text0)))
           (text_key_of (normalize_headers (fieldnames_of q text0)))
           (reader_rows q text0) [] = Inr rows"
proof (cases "records q text0")
  case (Pair recs err)
  show ?thesis
  proof (cases recs)
    case Nil
    with Pair assms show ?thesis by (cases err) (simp_all add: parse_rows_def)
  next
    case (Cons fieldnames rest')
    with Pair assms show ?thesis
      by (auto simp: parse_rows_def fieldnames_of_def reader_rows_def Let_def
               split: if_splits sum.splits option.splits)
  qed
qed

text \<open>
  Claim C7. The texts of the rows that the row parser yields are, in file order, exactly
  the texts of the data rows, each with every maximal run of white space replaced by one
  space and the white space at both ends removed, that are not empty after that: every
  row has such a text, and every data row whose text collapses to nothing is dropped.
\<close>

theorem row_text_normalized:
  assumes "parse_rows q text0 = Inr (Parsed rows)"
  shows "map row_text rows
           = filter (\<lambda>t. t \<noteq> [])
               (map (\<lambda>r. normalize_spec
                            (source_text (text_key_of (normalize_headers (fieldnames_of q text0))) r))
                    (reader_rows q text0))"
  using build_rows_text[OF parse_rows_Parsed[OF assms]] by (simp add: collapse_refines)

lemmas reader_defs =
  parse_process_char_def start_field_def parse_add_char_def parse_save_field_def
  parse_reset_def is_eol_def field_limit_def

lemma sample_text_codes:
  "sample_text = [116, 101, 120, 116, 10, 97, 32, 32, 98, 10, 32, 10, 99, 10]"
  by (simp add: sample_text_def u_def)

lemma sample_first_line: "first_line sample_text = [116, 101, 120, 116, 10]"
  by (simp add: sample_text_codes is_linebreak_def)

lemma sample_delimiter: "detect_delimiter no_quotes sample_text = 44"
  by (subst detect_delimiter_unquoted) (simp_all add: sample_first_line first_in_order_sniffer)

lemma sample_records:
  "records no_quotes sample_text
     = ([[[116, 101, 120, 116]], [[97, 32, 32, 98]], [[32]], [[99]]], None)"
proof -
  have "strip_bom sample_text = sample_text"
    by (simp add: sample_text_codes strip_bom_def)
  moreover have "stringio_lines sample_text
      = [[116, 101, 120, 116, 10], [97, 32, 32, 98, 10], [32, 10], [99, 10]]"
    by (simp add: sample_text_codes stringio_lines_def)
  moreover have "read_records 44 parse_reset
       [[116, 101, 120, 116, 10], [97, 32, 32, 98, 10], [32, 10], [99, 10]]
     = ([[[116, 101, 120, 116]], [[97, 32, 32, 98]], [[32]], [[99]]], None)"
    by (simp add: reader_defs)
  ultimately show ?thesis by (simp add: records_def sample_delimiter)
qed

lemma sample_headers: "normalize_headers (fieldnames_of no_quotes sample_text) = [u ''text'']"
  by (simp add: fieldnames_of_def sample_records normalize_headers_def lower_def lower_cp_def
        strip_def isspace_def u_def)

lemma sample_parse: "parse_rows no_quotes sample_text = Inr (Parsed sample_rows)"
  by (simp add: parse_rows_def sample_records sample_rows_def normalize_headers_def lower_def
        lower_cp_def strip_def isspace_def id_key_of_def text_key_of_def u_def dict_rows_def
        row_dict_def text_value_def dict_get_def or_str_def collapse_def split_ws.simps
        str_nat.simps)

theorem row_text_normalized_witness:
  "parse_rows no_quotes sample_text = Inr (Parsed sample_rows)
   \<and> filter (\<lambda>t. t \<noteq> [])
         (map (\<lambda>r. normalize_spec
                      (source_text
                         (text_key_of (normalize_headers (fieldnames_of no_quotes sample_text))) r))
              (reader_rows no_quotes sample_text))
       = [u ''a b'', u ''c'']"
  using row_text_normalized[OF sample_parse] sample_parse by (simp add: sample_rows_def)

text \<open>
  Claim C5. When no header is named \<^verbatim>\<open>id\<close> or \<^verbatim>\<open>tweet_id\<close> after trimming and
  lowercasing, the \<open>k\<close>-th accepted row (counting from 1) has the decimal string of \<open>k\<close> as
  its id; the accepted rows are those whose collapsed text is not empty, so a discarded
  row does not advance the count.
\<close>

theorem positional_id_fallback:
  assumes "parse_rows q text0 = Inr (Parsed rows)"
    and "u ''id'' \<notin> set (normalize_headers (fieldnames_of q text0))"
    and "u ''tweet_id'' \<notin> set (normalize_headers (fieldnames_of q text0))"
  shows "(\<forall>k < length rows. row_id (rows ! k) = str_nat (k + 1))
       \<and> length rows
           = length (filter (\<lambda>r. collapse (source_text
                                (text_key_of (normalize_headers (fieldnames_of q text0))) r) \<noteq> [])
                      (reader_rows q text0))"
proof
  from assms(2,3) have "id_key_of (normalize_headers (fieldnames_of q text0)) = None"
    by (simp add: id_key_of_def)
  with parse_rows_Parsed[OF assms(1)]
  have b: "build_rows None (text_key_of (normalize_headers (fieldnames_of q text0)))
             (reader_rows q text0) [] = Inr rows" by simp
  from build_rows_ids[OF b]
  have ids: "map row_id rows = map (\<lambda>k. str_nat (k + 1)) [0 ..< length rows]" by simp
  show "\<forall>k < length rows. row_id (rows ! k) = str_nat (k + 1)"
  proof (intro allI impI)
    fix k assume k: "k < length rows"
    then have "row_id (rows ! k) = map row_id rows ! k" by simp
    also have "\<dots> = str_nat (k + 1)" unfolding ids using k by simp
    finally show "row_id (rows ! k) = str_nat (k + 1)" .
  qed
  have "length rows = length (map row_text rows)" by simp
  also have "\<dots> = length (filter (\<lambda>t. t \<noteq> [])
       (map (\<lambda>r. collapse (source_text
                 (text_key_of (normalize_headers (fieldnames_of q text0))) r))
            (reader_rows q text0)))"
    using build_rows_text[OF b] by simp
  also have "\<dots> = length (filter (\<lambda>r. collapse (source_text
                                (text_key_of (normalize_headers (fieldnames_of q text0))) r) \<noteq> [])
                      (reader_rows q text0))"
    by (simp add: filter_map comp_def)
  finally show "length rows = length (filter (\<lambda>r. collapse (source_text
                                (text_key_of (normalize_headers (fieldnames_of q text0))) r) \<noteq> [])
                      (reader_rows q text0))" .
qed

theorem positional_id_fallback_witness:
  "parse_rows no_quotes sample_text = Inr (Parsed sample_rows)
   \<and> u ''id'' \<notin> set (normalize_headers (fieldnames_of no_quotes sample_text))
   \<and> u ''tweet_id'' \<notin> set (normalize_headers (fieldnames_of no_quotes sample_text))
   \<and> row_id (sample_rows ! 0) = str_nat 1
   \<and> row_id (sample_rows ! 1) = str_nat 2"
proof -
  have h2: "u ''id'' \<notin> set (normalize_headers (fieldnames_of no_quotes sample_text))"
    and h3: "u ''tweet_id'' \<notin> set (normalize_headers (fieldnames_of no_quotes sample_text))"
    by (simp_all add: sample_headers u_def)
  from positional_id_fallback[OF sample_parse h2 h3]
  have ids: "\<forall>k < length sample_rows. row_id (sample_rows ! k) = str_nat (k + 1)"
    by (rule conjunct1)
  have "0 < length sample_rows" and "1 < length sample_rows"
    by (simp_all add: sample_rows_def)
  with ids have "row_id (sample_rows ! 0) = str_nat (0 + 1)"
    and "row_id (sample_rows ! 1) = str_nat (1 + 1)"
    by blast+
  with sample_parse h2 h3 show ?thesis
    by (simp add: sample_rows_def str_nat.simps u_def)
qed

section \<open>The retry policy\<close>






















section \<open>Failure isolation and the manifest\<close>























section \<open>Input without a header\<close>

lemma base_name_split: "47 \<notin> set base \<Longrightarrow> base_name (dir @ 47 # base) = base"
proof -
  assume "47 \<notin> set base"
  then have "takeWhile (\<lambda>c. c \<noteq> 47) (rev base @ 47 # rev dir) = rev base"
    by (intro takeWhile_tail[THEN trans, OF _ takeWhile_eq_all_conv[THEN iffD2]]) auto
  then show ?thesis by (simp add: base_name_def)
qed

lemma base_name_plain: "47 \<notin> set base \<Longrightarrow> base_name base = base"
proof -
  assume "47 \<notin> set base"
  then have "takeWhile (\<lambda>c. c \<noteq> 47) (rev base) = rev base"
    by (intro takeWhile_eq_all_conv[THEN iffD2]) auto
  then show ?thesis by (simp only: base_name_def rev_rev_ident)
qed

text \<open>
  Claim C8. For the empty input, and for every input for which the reader yields no
  record at all or an empty first record, the run writes exactly one blob, the document
  \<^verbatim>\<open>{"error": "no_header"}\<close>, under the base name of the input followed by
  \<^verbatim>\<open>.manifest.json\<close>, makes no HTTP exchange and writes no blob for a batch. The base name
  is what follows the last slash of the name, the whole name when it has no slash.
\<close>

theorem empty_input_no_header:
  "process_blob env name [] =
     \<lparr>uploads = [(base_name name @ u ''.manifest.json'',
                  JObj [(u ''error'', JStr (u ''no_header''))])],
      exchanges = 0, readings = 0, chunk_idx = 0, total_preds = 0, raised = None\<rparr>
   \<and> (records (quoted env) text0 = ([], None)
        \<or> (\<exists>recs err. records (quoted env) text0 = ([] # recs, err))
      \<longrightarrow> process_blob env name text0 =
            \<lparr>uploads = [(base_name name @ u ''.manifest.json'',
                         JObj [(u ''error'', JStr (u ''no_header''))])],
             exchanges = 0, readings = 0, chunk_idx = 0, total_preds = 0, raised = None\<rparr>)
   \<and> (47 \<notin> set base \<longrightarrow> base_name (dir @ 47 # base) = base \<and> base_name base = base)"
proof (intro conjI impI)
  have "detect_delimiter (quoted env) [] = 44"
    by (simp add: detect_delimiter_def sniff_def guess_quote_and_delimiter_def
          guess_delimiter_def data_lines_def)
  then have "records (quoted env) [] = ([], None)"
    by (simp add: records_def strip_bom_def stringio_lines_def parse_reset_def)
  then show "process_blob env name [] =
     \<lparr>uploads = [(base_name name @ u ''.manifest.json'',
                  JObj [(u ''error'', JStr (u ''no_header''))])],
      exchanges = 0, readings = 0, chunk_idx = 0, total_preds = 0, raised = None\<rparr>"
    by (simp add: process_blob_def parse_rows_def write_meta_def upload_json_def init_run_def
          manifest_blob_name_def)
next
  assume "records (quoted env) text0 = ([], None)
        \<or> (\<exists>recs err. records (quoted env) text0 = ([] # recs, err))"
  then have "parse_rows (quoted env) text0 = Inr NoHeader"
    by (auto simp: parse_rows_def)
  then show "process_blob env name text0 =
            \<lparr>uploads = [(base_name name @ u ''.manifest.json'',
                         JObj [(u ''error'', JStr (u ''no_header''))])],
             exchanges = 0, readings = 0, chunk_idx = 0, total_preds = 0, raised = None\<rparr>"
    by (simp add: process_blob_def write_meta_def upload_json_def init_run_def
          manifest_blob_name_def)
next
  assume "47 \<notin> set base"
  then show "base_name (dir @ 47 # base) = base" and "base_name base = base"
    by (rule base_name_split, rule base_name_plain)
qed

theorem empty_input_no_header_witness:
  "records (quoted failing_env) [10] = ([[]], None)
   \<and> 47 \<notin> set (u ''a.csv'')
   \<and> u ''input/a.csv'' = u ''input'' @ 47 # u ''a.csv''
   \<and> process_blob failing_env (u ''input/a.csv'') [10] =
       \<lparr>uploads = [(u ''a.csv.manifest.json'', JObj [(u ''error'', JStr (u ''no_header''))])],
        exchanges = 0, readings = 0, chunk_idx = 0, total_preds = 0, raised = None\<rparr>
   \<and> process_blob failing_env (u ''input/a.csv'') [] =
       \<lparr>uploads = [(u ''a.csv.manifest.json'', JObj [(u ''error'', JStr (u ''no_header''))])],
        exchanges = 0, readings = 0, chunk_idx = 0, total_preds = 0, raised = None\<rparr>"
proof -
  have fl: "first_line [10] = [10]" by (simp add: is_linebreak_def)
  have "detect_delimiter no_quotes [10] = 44"
    by (subst detect_delimiter_unquoted) (simp_all add: fl first_in_order_sniffer)
  then have r: "records (quoted failing_env) [10] = ([[]], None)"
    by (simp add: records_def strip_bom_def stringio_lines_def failing_env_def reader_defs)
  have b: "47 \<notin> set (u ''a.csv'')" by (simp add: u_def)
  have n: "u ''input/a.csv'' = u ''input'' @ 47 # u ''a.csv''" by (simp add: u_def)
  have k: "u ''a.csv'' @ u ''.manifest.json'' = u ''a.csv.manifest.json''" by (simp add: u_def)
  note t = empty_input_no_header[of failing_env "u ''input/a.csv''" "[10]"
             "u ''a.csv''" "u ''input''"]
  from t b have "base_name (u ''input'' @ 47 # u ''a.csv'') = u ''a.csv''" by blast
  then have bn: "base_name (u ''input/a.csv'') = u ''a.csv''" by (simp only: n)
  from t r have "process_blob failing_env (u ''input/a.csv'') [10] =
       \<lparr>uploads = [(base_name (u ''input/a.csv'') @ u ''.manifest.json'',
                    JObj [(u ''error'', JStr (u ''no_header''))])],
        exchanges = 0, readings = 0, chunk_idx = 0, total_preds = 0, raised = None\<rparr>"
    by blast
  then have p1: "process_blob failing_env (u ''input/a.csv'') [10] =
       \<lparr>uploads = [(u ''a.csv.manifest.json'', JObj [(u ''error'', JStr (u ''no_header''))])],
        exchanges = 0, readings = 0, chunk_idx = 0, total_preds = 0, raised = None\<rparr>"
    by (simp only: bn k)
  from t have "process_blob failing_env (u ''input/a.csv'') [] =
       \<lparr>uploads = [(base_name (u ''input/a.csv'') @ u ''.manifest.json'',
                    JObj [(u ''error'', JStr (u ''no_header''))])],
        exchanges = 0, readings = 0, chunk_idx = 0, total_preds = 0, raised = None\<rparr>"
    by (rule conjunct1)
  then have p2: "process_blob failing_env (u ''input/a.csv'') [] =
       \<lparr>uploads = [(u ''a.csv.manifest.json'', JObj [(u ''error'', JStr (u ''no_header''))])],
        exchanges = 0, readings = 0, chunk_idx = 0, total_preds = 0, raised = None\<rparr>"
    by (simp only: bn k)
  show ?thesis by (intro conjI) (rule r b n p1 p2)+
qed

section \<open>Running twice\<close>










end
